theory Spec2Isabelle
  imports Complex_Main "HOL-Library.Word" "HOL-Library.Multiset" "HOL-Library.Log_Nat"
begin

unbundle bit_operations_syntax

section \<open>Data model\<close>

text \<open>
  A JavaScript \<open>number\<close> that holds an integer is an \<^typ>\<open>int\<close>; a Node \<open>Buffer\<close> is a
  list of bytes; an array \<open>number[]\<close> is an \<^typ>\<open>int list\<close>.  Everything the source throws
  is a value of \<open>error\<close>, and a function that can throw returns \<open>error + 'a\<close>.  The
  arithmetic on key ids and knob ids has no bound in the source, so there a number is a
  double: a rational, with every operation rounded as IEEE 754 rounds it.
\<close>

type_synonym Buffer = "8 word list"

datatype error =
    InvalidSize nat
  | UnsupportedKeyMapType int
  | TypeError
  | RangeError
  | NoResponse
  | InvalidLayerResponse Buffer

text \<open>
  The bounds-checked accessors of Node's \<open>Buffer\<close>: a read whose bytes are not all inside
  the buffer throws a range error.
\<close>

definition readUInt8 :: "Buffer \<Rightarrow> nat \<Rightarrow> error + int" where
  "readUInt8 buffer off =
     (if off < length buffer then Inr (uint (buffer ! off)) else Inl RangeError)"

definition readInt8 :: "Buffer \<Rightarrow> nat \<Rightarrow> error + int" where
  "readInt8 buffer off =
     (if off < length buffer then Inr (sint (buffer ! off)) else Inl RangeError)"

definition readUInt16LE :: "Buffer \<Rightarrow> nat \<Rightarrow> error + int" where
  "readUInt16LE buffer off =
     (if off + 2 \<le> length buffer
      then Inr (uint (buffer ! off) + 256 * uint (buffer ! (off + 1)))
      else Inl RangeError)"

text \<open>\<open>Buffer.from(array)\<close> keeps the low eight bits of every number.\<close>

definition Buffer_from :: "int list \<Rightarrow> Buffer" where
  "Buffer_from bytes = map word_of_int bytes"

text \<open>\<open>Array.from(buffer)\<close> reads every byte as an unsigned number.\<close>

definition Array_from :: "Buffer \<Rightarrow> int list" where
  "Array_from buffer = map uint buffer"

subsection \<open>utils.ts\<close>

definition toInt8 :: "int \<Rightarrow> int" where
  "toInt8 n =
     (if n \<ge> 0 then (if n \<le> 0x7F then n else 0x7F)
      else (let d = 0x100 + n in
            if d \<ge> 0x80 \<and> d \<le> 0xFF then d else 0x80))"

text \<open>
  \<open>fromInt8\<close> writes \<open>n & 0xFF\<close> into a one-byte buffer and reads the byte back as a
  signed 8-bit integer.
\<close>

definition fromInt8 :: "int \<Rightarrow> int" where
  "fromInt8 n = (let buf = [word_of_int (n AND 0xFF) :: 8 word] in sint (buf ! 0))"

definition splitUInt16LE :: "int \<Rightarrow> int list" where
  "splitUInt16LE v = (let b = (drop_bit 8 v) AND 0xFF; l = v AND 0xFF in [l, b])"

subsection \<open>JavaScript numbers\<close>

text \<open>
  A finite double is a rational.  \<open>binade v\<close> is the exponent \<open>e\<close> with
  \<open>2 ^ e \<le> \<bar>v\<bar> < 2 ^ (e + 1)\<close>; \<open>fl v\<close> is the double nearest to \<open>v\<close>, a tie going to
  the even mantissa of 53 bits, with the fixed spacing of the subnormal numbers below
  \<open>2 ^ - 1022\<close>.  The operators \<open>+\<close>, \<open>-\<close>, \<open>*\<close> and \<open>/\<close> return the rounded exact result;
  \<open>%\<close> is exact and takes the sign of the dividend.  Results of magnitude \<open>2 ^ 1024\<close> and
  more, which are infinite in JavaScript, are outside this model.
\<close>

type_synonym number = rat

definition pow2 :: "int \<Rightarrow> rat" where
  "pow2 e = (if 0 \<le> e then 2 ^ nat e else 1 / 2 ^ nat (- e))"

definition binade :: "rat \<Rightarrow> int" where
  "binade v = (let a = \<bar>v\<bar> in if 1 \<le> a then bitlen \<lfloor>a\<rfloor> - 1 else - bitlen (\<lceil>1 / a\<rceil> - 1))"

definition round_half_even :: "rat \<Rightarrow> int" where
  "round_half_even q =
     (let f = \<lfloor>q\<rfloor>; d = q - of_int f in
      if d < 1 / 2 then f else if 1 / 2 < d then f + 1 else if even f then f else f + 1)"

definition fl :: "rat \<Rightarrow> number" where
  "fl v = (if v = 0 then 0
           else (let u = pow2 (max (binade v) (- 1022) - 52)
                 in of_int (round_half_even (v / u)) * u))"

definition js_add :: "number \<Rightarrow> number \<Rightarrow> number" where "js_add a b = fl (a + b)"
definition js_sub :: "number \<Rightarrow> number \<Rightarrow> number" where "js_sub a b = fl (a - b)"
definition js_mul :: "number \<Rightarrow> number \<Rightarrow> number" where "js_mul a b = fl (a * b)"
definition js_div :: "number \<Rightarrow> number \<Rightarrow> number" where "js_div a b = fl (a / b)"

definition js_trunc :: "rat \<Rightarrow> int" where
  "js_trunc q = (if 0 \<le> q then \<lfloor>q\<rfloor> else \<lceil>q\<rceil>)"

definition js_rem :: "number \<Rightarrow> number \<Rightarrow> number" where
  "js_rem a b = a - b * of_int (js_trunc (a / b))"

subsection \<open>types.ts\<close>

record WithModKey =
  modKey :: int

record KeyAction = WithModKey +
  keyCode :: int

record MouseAction = WithModKey +
  button :: int
  x :: int
  y :: int
  wheel :: int

record ConsumerAction =
  consumerId :: int

definition emptyMouseAction :: MouseAction where
  "emptyMouseAction = \<lparr>modKey = 0, button = 0, x = 0, y = 0, wheel = 0\<rparr>"

text \<open>\<open>Wheel(wheel, modKey = 0)\<close> is \<open>Mouse({ modKey, wheel: toInt8(wheel) })\<close>.\<close>

definition Wheel :: "int \<Rightarrow> int \<Rightarrow> MouseAction" where
  "Wheel w m = emptyMouseAction\<lparr>modKey := m, wheel := toInt8 w\<rparr>"

definition mouse_WheelUp :: MouseAction where
  "mouse_WheelUp = Wheel 1 0"

text \<open>
  The counts of a keypad info are integers.  Where they enter the arithmetic on doubles
  below, the statements take them among the integers that a double holds exactly.
\<close>

record KeypadInfo =
  keys :: int
  knobs :: int

text \<open>The table \<open>KnobActions\<close>, in the order of its entries.\<close>

definition KnobActions :: "(string \<times> number) list" where
  "KnobActions = [(''Left'', 0), (''Click'', 1), (''Right'', 2)]"

definition getKeyCount :: "KeypadInfo \<Rightarrow> int" where
  "getKeyCount info = keys info + 3 * knobs info"

definition findKnobAction :: "string \<Rightarrow> number option" where
  "findKnobAction action = map_of KnobActions action"

definition findKnobActionName :: "number \<Rightarrow> string option" where
  "findKnobActionName action =
     map_option fst (find (\<lambda>(name, v). v = action) KnobActions)"

text \<open>
  \<open>1 + info.keys + 3 * (knobId - 1) + knobAction\<close>, evaluated from the left with the
  product first, every step rounded.
\<close>

definition getKeyIdForKnob :: "KeypadInfo \<Rightarrow> number \<Rightarrow> number \<Rightarrow> number" where
  "getKeyIdForKnob info knobId knobAction =
     js_add (js_add (js_add 1 (of_int (keys info))) (js_mul 3 (js_sub knobId 1))) knobAction"

record KnobIdAndAction =
  knobId :: number
  knobAction :: "string option"

definition getKnobByKeyId :: "KeypadInfo \<Rightarrow> number \<Rightarrow> KnobIdAndAction option" where
  "getKnobByKeyId info keyId =
     (if keyId \<le> of_int (keys info) then None
      else (let knob = js_sub (js_sub keyId 1) (of_int (keys info));
                actionIndex = js_rem knob 3;
                knobId = js_add 1 (js_div (js_sub knob actionIndex) 3);
                knobAction = findKnobActionName actionIndex
            in Some \<lparr>knobId = knobId, knobAction = knobAction\<rparr>))"

section \<open>api.ts: the codec\<close>

definition REQUEST_SIZE :: nat where
  "REQUEST_SIZE = 65"

subsection \<open>Key actions\<close>

function packKeyActrions_loop :: "KeyAction list \<Rightarrow> nat \<Rightarrow> nat \<Rightarrow> int list \<Rightarrow> int list" where
  "packKeyActrions_loop ks len i data =
     (if i < len
      then packKeyActrions_loop ks len (i + 1) (data @ [modKey (ks ! i), keyCode (ks ! i)])
      else data)"
  by pat_completeness auto
termination
  by (relation "measure (\<lambda>(ks, len, i, data). len - i)") auto

declare packKeyActrions_loop.simps [simp del]

definition packKeyActrions :: "KeyAction list \<Rightarrow> error + int list" where
  "packKeyActrions ks =
     (let len = length ks in
      if len < 0 \<or> len > 18 then Inl (InvalidSize len)
      else Inr (packKeyActrions_loop ks len 0 [int len]))"

function unpackKeyActions_loop ::
  "Buffer \<Rightarrow> int \<Rightarrow> nat \<Rightarrow> KeyAction list \<Rightarrow> error + KeyAction list" where
  "unpackKeyActions_loop buffer len i ks =
     (if int i < len
      then (case readUInt8 buffer (0x0B + 2 * i) of
              Inl e \<Rightarrow> Inl e
            | Inr m \<Rightarrow>
               (case readUInt8 buffer (0x0B + 2 * i + 1) of
                  Inl e \<Rightarrow> Inl e
                | Inr c \<Rightarrow>
                   unpackKeyActions_loop buffer len (i + 1) (ks @ [\<lparr>modKey = m, keyCode = c\<rparr>])))
      else Inr ks)"
  by pat_completeness auto
termination
  by (relation "measure (\<lambda>(buffer, len, i, ks). nat (len - int i))") auto

declare unpackKeyActions_loop.simps [simp del]

definition unpackKeyActions :: "Buffer \<Rightarrow> error + KeyAction list" where
  "unpackKeyActions buffer =
     (case readInt8 buffer 0x0A of
        Inl e \<Rightarrow> Inl e
      | Inr len \<Rightarrow> unpackKeyActions_loop buffer len 0 [])"

subsection \<open>Consumer and mouse actions\<close>

definition packConsumerAction :: "ConsumerAction \<Rightarrow> int list" where
  "packConsumerAction a = 0x01 # splitUInt16LE (consumerId a)"

definition unpackConsumerAction :: "Buffer \<Rightarrow> error + ConsumerAction" where
  "unpackConsumerAction buffer =
     (case readUInt16LE buffer 0x0B of
        Inl e \<Rightarrow> Inl e
      | Inr v \<Rightarrow> Inr \<lparr>consumerId = v\<rparr>)"

definition packMouseAction :: "MouseAction \<Rightarrow> int list" where
  "packMouseAction action =
     [0x04, modKey action, button action, x action, y action, wheel action]"

definition unpackMouseAction :: "Buffer \<Rightarrow> error + MouseAction" where
  "unpackMouseAction buffer =
     (case readUInt8 buffer 0x0B of Inl e \<Rightarrow> Inl e | Inr m \<Rightarrow>
      (case readUInt8 buffer 0x0C of Inl e \<Rightarrow> Inl e | Inr b \<Rightarrow>
       (case readUInt8 buffer 0x0D of Inl e \<Rightarrow> Inl e | Inr dx \<Rightarrow>
        (case readUInt8 buffer 0x0E of Inl e \<Rightarrow> Inl e | Inr dy \<Rightarrow>
         (case readUInt8 buffer 0x0F of Inl e \<Rightarrow> Inl e | Inr w \<Rightarrow>
            Inr \<lparr>modKey = m, button = b, x = dx, y = dy, wheel = w\<rparr>)))))"

subsection \<open>Key maps\<close>

text \<open>
  \<open>KeyMap\<close> is the union of four interfaces that share the field \<open>type\<close>.  The three known
  interfaces fix the value of \<open>type\<close>; the unknown one carries any number and the buffer.
\<close>

datatype KeyMap =
    KeyMapKeys "KeyAction list"
  | KeyMapConsumer ConsumerAction
  | KeyMapMouse MouseAction
  | KeyMapUnknown int Buffer

definition KeyMapTypes_keys :: int where "KeyMapTypes_keys = 0x01"
definition KeyMapTypes_consumer :: int where "KeyMapTypes_consumer = 0x02"
definition KeyMapTypes_mouse :: int where "KeyMapTypes_mouse = 0x03"

fun KeyMap_type :: "KeyMap \<Rightarrow> int" where
  "KeyMap_type (KeyMapKeys ks) = KeyMapTypes_keys"
| "KeyMap_type (KeyMapConsumer c) = KeyMapTypes_consumer"
| "KeyMap_type (KeyMapMouse m) = KeyMapTypes_mouse"
| "KeyMap_type (KeyMapUnknown t buffer) = t"

definition isKeyMapKeys :: "KeyMap \<Rightarrow> bool" where
  "isKeyMapKeys keyMap \<longleftrightarrow> KeyMap_type keyMap = KeyMapTypes_keys"

definition isKeyMapConsumer :: "KeyMap \<Rightarrow> bool" where
  "isKeyMapConsumer keyMap \<longleftrightarrow> KeyMap_type keyMap = KeyMapTypes_consumer"

definition isKeyMapMouse :: "KeyMap \<Rightarrow> bool" where
  "isKeyMapMouse keyMap \<longleftrightarrow> KeyMap_type keyMap = KeyMapTypes_mouse"

definition createKeyMapMouse :: "MouseAction \<Rightarrow> KeyMap" where
  "createKeyMapMouse action = KeyMapMouse action"

text \<open>
  The fields \<open>keys\<close>, \<open>consumer\<close> and \<open>mouse\<close> of a key map; each is \<open>undefined\<close> (here
  \<open>None\<close>) on a variant that does not have it, and the pack function that receives
  \<open>undefined\<close> throws a type error when it reads a property of it.
\<close>

fun KeyMap_keys :: "KeyMap \<Rightarrow> KeyAction list option" where
  "KeyMap_keys (KeyMapKeys ks) = Some ks"
| "KeyMap_keys _ = None"

fun KeyMap_consumer :: "KeyMap \<Rightarrow> ConsumerAction option" where
  "KeyMap_consumer (KeyMapConsumer c) = Some c"
| "KeyMap_consumer _ = None"

fun KeyMap_mouse :: "KeyMap \<Rightarrow> MouseAction option" where
  "KeyMap_mouse (KeyMapMouse m) = Some m"
| "KeyMap_mouse _ = None"

definition packKeyMap_data :: "KeyMap \<Rightarrow> error + int list" where
  "packKeyMap_data keyMap =
     (if isKeyMapKeys keyMap then
        (case KeyMap_keys keyMap of None \<Rightarrow> Inl TypeError | Some ks \<Rightarrow> packKeyActrions ks)
      else if isKeyMapConsumer keyMap then
        (case KeyMap_consumer keyMap of None \<Rightarrow> Inl TypeError
         | Some c \<Rightarrow> Inr (packConsumerAction c))
      else if isKeyMapMouse keyMap then
        (case KeyMap_mouse keyMap of None \<Rightarrow> Inl TypeError
         | Some m \<Rightarrow> Inr (packMouseAction m))
      else Inl (UnsupportedKeyMapType (KeyMap_type keyMap)))"

definition packKeyMap :: "KeyMap \<Rightarrow> error + int list" where
  "packKeyMap keyMap =
     (case packKeyMap_data keyMap of
        Inl e \<Rightarrow> Inl e
      | Inr data \<Rightarrow> Inr ([KeyMap_type keyMap, 0, 0, 0, 0, 0] @ data))"

record KeyMapWithId =
  layerId :: int
  keyId :: int
  keyMap :: KeyMap

definition unpackKeyMapWithId :: "Buffer \<Rightarrow> error + KeyMapWithId" where
  "unpackKeyMapWithId buffer =
     (case readUInt8 buffer 2 of Inl e \<Rightarrow> Inl e | Inr k \<Rightarrow>
      (case readUInt8 buffer 3 of Inl e \<Rightarrow> Inl e | Inr l \<Rightarrow>
       (case readUInt8 buffer 4 of Inl e \<Rightarrow> Inl e | Inr t \<Rightarrow>
          if t = KeyMapTypes_keys then
            (case unpackKeyActions buffer of Inl e \<Rightarrow> Inl e
             | Inr ks \<Rightarrow> Inr \<lparr>layerId = l, keyId = k, keyMap = KeyMapKeys ks\<rparr>)
          else if t = KeyMapTypes_consumer then
            (case unpackConsumerAction buffer of Inl e \<Rightarrow> Inl e
             | Inr c \<Rightarrow> Inr \<lparr>layerId = l, keyId = k, keyMap = KeyMapConsumer c\<rparr>)
          else if t = KeyMapTypes_mouse then
            (case unpackMouseAction buffer of Inl e \<Rightarrow> Inl e
             | Inr m \<Rightarrow> Inr \<lparr>layerId = l, keyId = k, keyMap = KeyMapMouse m\<rparr>)
          else Inr \<lparr>layerId = l, keyId = k, keyMap = KeyMapUnknown t buffer\<rparr>)))"

section \<open>api.ts: transport and session\<close>

text \<open>
  Some names of the source are taken in Isabelle or clash with each other: the field
  \<open>id\<close> of a consumer action is \<open>consumerId\<close> here, the field \<open>layerId\<close> of the read request
  is \<open>req_layerId\<close>, and the locals \<open>layerId\<close> and \<open>count\<close> of \<open>readKeypadKeyMaps\<close> are
  \<open>lid\<close> and \<open>cnt\<close>.

  The device handle \<open>HidIO\<close> is an external capability.  Its observable behaviour is
  kept as state: the log of the arrays given to \<open>write\<close>, the number of calls of
  \<open>read\<close>, and the reports the device will hand out.  A \<open>read\<close> on a device with nothing
  left to say times out and returns the empty buffer.
\<close>

record HidIO =
  written :: "int list list"
  reads :: nat
  incoming :: "Buffer list"

definition hid_write :: "HidIO \<Rightarrow> int list \<Rightarrow> HidIO" where
  "hid_write hid req = hid\<lparr>written := written hid @ [req]\<rparr>"

definition hid_read :: "HidIO \<Rightarrow> Buffer \<times> HidIO" where
  "hid_read hid =
     (case incoming hid of
        [] \<Rightarrow> ([], hid\<lparr>reads := reads hid + 1\<rparr>)
      | b # bs \<Rightarrow> (b, hid\<lparr>reads := reads hid + 1, incoming := bs\<rparr>))"

function sendRequest_loop :: "int list \<Rightarrow> nat \<Rightarrow> int list" where
  "sendRequest_loop req i =
     (if i < REQUEST_SIZE then sendRequest_loop (req @ [0]) (i + 1) else req)"
  by pat_completeness auto
termination
  by (relation "measure (\<lambda>(req, i). REQUEST_SIZE - i)") auto

declare sendRequest_loop.simps [simp del]

definition sendRequest :: "HidIO \<Rightarrow> int list \<Rightarrow> HidIO" where
  "sendRequest hid request = hid_write hid (sendRequest_loop request (length request))"

definition recvResponse :: "HidIO \<Rightarrow> (error + Buffer) \<times> HidIO" where
  "recvResponse device =
     (case hid_read device of
        (buffer, device') \<Rightarrow>
          if length buffer = 0 then (Inl NoResponse, device') else (Inr buffer, device'))"

record ReadKeypadKeyMapsRequest = KeypadInfo +
  req_layerId :: int

definition packReadKeypadKeyMaps :: "ReadKeypadKeyMapsRequest \<Rightarrow> int list" where
  "packReadKeypadKeyMaps param = [0x03, 0xfa, keys param, knobs param, req_layerId param]"

text \<open>
  A JavaScript array with holes: a hole is \<open>None\<close>.  An assignment \<open>result[i] = v\<close> beyond
  the end extends the array with holes; at a negative index it creates a named property
  and leaves the elements and the length as they are.
\<close>

type_synonym KeyMapList = "KeyMap option list"
type_synonym KeyMapTable = "KeyMapList list"

definition array_set :: "'a option list \<Rightarrow> int \<Rightarrow> 'a \<Rightarrow> 'a option list" where
  "array_set xs i v =
     (if i < 0 then xs
      else if nat i < length xs then xs[nat i := Some v]
      else xs @ replicate (nat i - length xs) None @ [Some v])"

function readKeypadKeyMaps_loop ::
  "int \<Rightarrow> int \<Rightarrow> int \<Rightarrow> KeyMapList \<Rightarrow> HidIO \<Rightarrow> (error + KeyMapList) \<times> HidIO" where
  "readKeypadKeyMaps_loop lid cnt i result hid =
     (if i < cnt then
        (case recvResponse hid of
           (Inl e, hid') \<Rightarrow> (Inl e, hid')
         | (Inr buffer, hid') \<Rightarrow>
            (case unpackKeyMapWithId buffer of
               Inl e \<Rightarrow> (Inl e, hid')
             | Inr keyMapWithId \<Rightarrow>
                 if layerId keyMapWithId \<noteq> lid
                 then (Inl (InvalidLayerResponse buffer), hid')
                 else readKeypadKeyMaps_loop lid cnt (i + 1)
                        (array_set result (keyId keyMapWithId - 1) (keyMap keyMapWithId)) hid'))
      else (Inr result, hid))"
  by pat_completeness auto
termination
  by (relation "measure (\<lambda>(lid, cnt, i, result, hid). nat (cnt - i))") auto

declare readKeypadKeyMaps_loop.simps [simp del]

definition readKeypadKeyMaps ::
  "HidIO \<Rightarrow> ReadKeypadKeyMapsRequest \<Rightarrow> (error + KeyMapList) \<times> HidIO" where
  "readKeypadKeyMaps hid param =
     (let hid1 = sendRequest hid (packReadKeypadKeyMaps param);
          lid = req_layerId param;
          info = \<lparr>keys = keys param, knobs = knobs param\<rparr>;
          cnt = getKeyCount info
      in readKeypadKeyMaps_loop lid cnt 0 [] hid1)"

function readKeypadKeyMapTable_loop ::
  "KeypadInfo \<Rightarrow> int \<Rightarrow> int \<Rightarrow> KeyMapTable \<Rightarrow> HidIO \<Rightarrow> (error + KeyMapTable) \<times> HidIO" where
  "readKeypadKeyMapTable_loop info layers i result hid =
     (if i < layers then
        (case readKeypadKeyMaps hid \<lparr>keys = keys info, knobs = knobs info, req_layerId = i + 1\<rparr> of
           (Inl e, hid') \<Rightarrow> (Inl e, hid')
         | (Inr list, hid') \<Rightarrow> readKeypadKeyMapTable_loop info layers (i + 1) (result @ [list]) hid')
      else (Inr result, hid))"
  by pat_completeness auto
termination
  by (relation "measure (\<lambda>(info, layers, i, result, hid). nat (layers - i))") auto

declare readKeypadKeyMapTable_loop.simps [simp del]

definition readKeypadKeyMapTable ::
  "HidIO \<Rightarrow> KeypadInfo \<Rightarrow> int \<Rightarrow> (error + KeyMapTable) \<times> HidIO" where
  "readKeypadKeyMapTable hid info layers = readKeypadKeyMapTable_loop info layers 0 [] hid"

section \<open>Notions used in the statements\<close>

text \<open>The key action that the report holds in its \<open>j\<close>-th pair of bytes after offset \<open>0x0B\<close>.\<close>

definition pairAt :: "Buffer \<Rightarrow> nat \<Rightarrow> KeyAction" where
  "pairAt buffer j =
     \<lparr>modKey = uint (buffer ! (0x0B + 2 * j)), keyCode = uint (buffer ! (0x0B + 2 * j + 1))\<rparr>"

text \<open>
  A report that ends with its payload is well-formed for its type when the five bytes
  after the type byte are zero and the payload at offset \<open>0x0A\<close> is exactly the layout of
  that type: a count of at most 18 and that many pairs, or the marker \<open>0x01\<close> and a 16-bit
  id, or the marker \<open>0x04\<close> and the five bytes of a mouse action.
\<close>

definition wellformed_report :: "Buffer \<Rightarrow> bool" where
  "wellformed_report buffer \<longleftrightarrow>
     11 \<le> length buffer \<and>
     buffer ! 5 = 0 \<and> buffer ! 6 = 0 \<and> buffer ! 7 = 0 \<and> buffer ! 8 = 0 \<and> buffer ! 9 = 0 \<and>
     ((buffer ! 4 = 0x01 \<and> unat (buffer ! 10) \<le> 18 \<and>
         length buffer = 11 + 2 * unat (buffer ! 10)) \<or>
      (buffer ! 4 = 0x02 \<and> buffer ! 10 = 0x01 \<and> length buffer = 13) \<or>
      (buffer ! 4 = 0x03 \<and> buffer ! 10 = 0x04 \<and> length buffer = 16))"

text \<open>
  A key map of a known type is valid when every field that is stored in one byte is in
  \<open>[0, 255]\<close> (the mouse deltas are kept in their unsigned storage form, as \<open>toInt8\<close>
  returns them), the consumer id is in \<open>[0, 65535]\<close> and there are at most 18 key
  actions.
\<close>

definition valid_byte :: "int \<Rightarrow> bool" where
  "valid_byte v \<longleftrightarrow> 0 \<le> v \<and> v \<le> 0xFF"

fun valid_KeyMap :: "KeyMap \<Rightarrow> bool" where
  "valid_KeyMap (KeyMapKeys ks) \<longleftrightarrow>
     length ks \<le> 18 \<and> list_all (\<lambda>k. valid_byte (modKey k) \<and> valid_byte (keyCode k)) ks"
| "valid_KeyMap (KeyMapConsumer c) \<longleftrightarrow> 0 \<le> consumerId c \<and> consumerId c \<le> 0xFFFF"
| "valid_KeyMap (KeyMapMouse m) \<longleftrightarrow>
     valid_byte (modKey m) \<and> valid_byte (button m) \<and> valid_byte (x m) \<and> valid_byte (y m) \<and>
     valid_byte (wheel m)"
| "valid_KeyMap (KeyMapUnknown t buffer) \<longleftrightarrow> False"

text \<open>
  A response is accepted for a layer when it unpacks and carries that layer id; it is a
  mismatch when it unpacks and carries another layer id.
\<close>

definition response_ok :: "int \<Rightarrow> Buffer \<Rightarrow> bool" where
  "response_ok lid r \<longleftrightarrow>
     (case unpackKeyMapWithId r of Inl e \<Rightarrow> False | Inr kw \<Rightarrow> layerId kw = lid)"

definition response_mismatch :: "int \<Rightarrow> Buffer \<Rightarrow> bool" where
  "response_mismatch lid r \<longleftrightarrow>
     (case unpackKeyMapWithId r of Inl e \<Rightarrow> False | Inr kw \<Rightarrow> layerId kw \<noteq> lid)"

text \<open>What one accepted response does to the list that \<open>readKeypadKeyMaps\<close> builds.\<close>

definition store :: "Buffer \<Rightarrow> KeyMapList \<Rightarrow> KeyMapList" where
  "store r acc =
     (case unpackKeyMapWithId r of
        Inl e \<Rightarrow> acc
      | Inr kw \<Rightarrow> array_set acc (keyId kw - 1) (keyMap kw))"


text \<open>The request that asks for the key maps of one layer, padded to the report size.\<close>

definition request_for :: "KeypadInfo \<Rightarrow> int \<Rightarrow> int list" where
  "request_for info l = [0x03, 0xfa, keys info, knobs info, l] @ replicate 60 0"

text \<open>The element of an array at an index, a hole or an index beyond the end being \<open>None\<close>.\<close>

definition slot :: "'a option list \<Rightarrow> nat \<Rightarrow> 'a option" where
  "slot xs j = (if j < length xs then xs ! j else None)"

text \<open>A response that unpacks and whose key id is at least 1.\<close>

definition storable :: "Buffer \<Rightarrow> bool" where
  "storable r \<longleftrightarrow>
     (case unpackKeyMapWithId r of Inl e \<Rightarrow> False | Inr kw \<Rightarrow> True) \<and> 1 \<le> uint (r ! 2)"

section \<open>Signed-byte helpers\<close>

lemma and_255_mod: "(n::int) AND 0xFF = n mod 256"
proof -
  have "(0xFF::int) = mask 8" by (simp add: mask_eq_exp_minus_1)
  then have "n AND 0xFF = take_bit 8 n" by (simp add: take_bit_eq_mask)
  then show ?thesis by (simp add: take_bit_eq_mod)
qed

lemma sint_byte_low: "0 \<le> n \<Longrightarrow> n \<le> 127 \<Longrightarrow> sint (word_of_int n :: 8 word) = n"
  by (simp add: int_word_sint)

lemma sint_byte_high: "128 \<le> n \<Longrightarrow> n \<le> 255 \<Longrightarrow> sint (word_of_int n :: 8 word) = n - 256"
proof -
  assume a: "128 \<le> n" "n \<le> 255"
  have "(n - 128 + 256) mod 256 = (n - 128) mod 256" by (rule mod_add_self2)
  also have "\<dots> = n - 128" using a by (intro mod_pos_pos_trivial) auto
  finally have "(n + 128) mod 256 = n - 128" by (simp add: algebra_simps)
  then show ?thesis by (simp add: int_word_sint)
qed

lemma fromInt8_low: "0 \<le> n \<Longrightarrow> n \<le> 127 \<Longrightarrow> fromInt8 n = n"
  by (simp add: fromInt8_def and_255_mod sint_byte_low)

lemma fromInt8_high: "128 \<le> n \<Longrightarrow> n \<le> 255 \<Longrightarrow> fromInt8 n = n - 256"
  by (simp add: fromInt8_def and_255_mod sint_byte_high)

text \<open>
  Claim C6.  Every integer in \<open>[-128, 127]\<close> survives \<open>toInt8\<close> followed by \<open>fromInt8\<close>.
  An integer above 127 is clamped to \<open>0x7F\<close> and one below -128 to \<open>0x80\<close>; nothing wraps
  around, and a clamped value does not come back.
\<close>

theorem toInt8_fromInt8:
  "(- 128 \<le> n \<and> n \<le> 127 \<longrightarrow> fromInt8 (toInt8 n) = n) \<and>
   (127 < n \<longrightarrow> toInt8 n = 0x7F \<and> fromInt8 (toInt8 n) \<noteq> n) \<and>
   (n < - 128 \<longrightarrow> toInt8 n = 0x80 \<and> fromInt8 (toInt8 n) \<noteq> n)"
proof (intro conjI impI)
  assume r: "- 128 \<le> n \<and> n \<le> 127"
  show "fromInt8 (toInt8 n) = n"
  proof (cases "0 \<le> n")
    case True
    with r show ?thesis by (simp add: toInt8_def fromInt8_low)
  next
    case False
    with r have "toInt8 n = 256 + n" by (simp add: toInt8_def Let_def)
    moreover from r False have "fromInt8 (256 + n) = 256 + n - 256"
      by (intro fromInt8_high) auto
    ultimately show ?thesis by simp
  qed
next
  assume "127 < n"
  then show "toInt8 n = 0x7F" by (simp add: toInt8_def)
next
  assume h: "127 < n"
  then have "toInt8 n = 127" by (simp add: toInt8_def)
  with h show "fromInt8 (toInt8 n) \<noteq> n" by (simp add: fromInt8_low)
next
  assume "n < - 128"
  then show "toInt8 n = 0x80" by (simp add: toInt8_def Let_def)
next
  assume h: "n < - 128"
  then have "toInt8 n = 128" by (simp add: toInt8_def Let_def)
  with h show "fromInt8 (toInt8 n) \<noteq> n" by (simp add: fromInt8_high)
qed

theorem toInt8_fromInt8_witness:
  "fromInt8 (toInt8 (- 1)) = - 1 \<and> toInt8 (- 1) = 0xFF \<and>
   toInt8 200 = 0x7F \<and> fromInt8 (toInt8 200) \<noteq> 200 \<and>
   toInt8 (- 129) = 0x80 \<and> fromInt8 (toInt8 (- 129)) \<noteq> - 129"
  using toInt8_fromInt8 [of "- 1"] toInt8_fromInt8 [of 200] toInt8_fromInt8 [of "- 129"]
  by (simp add: toInt8_def)


section \<open>Packing key actions\<close>

lemma packKeyActrions_loop_eq:
  "len = length ks \<Longrightarrow> i \<le> len \<Longrightarrow>
   packKeyActrions_loop ks len i data =
     data @ concat (map (\<lambda>k. [modKey k, keyCode k]) (drop i ks))"
proof (induction ks len i data rule: packKeyActrions_loop.induct)
  case (1 ks len i data)
  show ?case
  proof (cases "i < len")
    case True
    with "1.prems" have d: "drop i ks = ks ! i # drop (i + 1) ks"
      by (simp add: Cons_nth_drop_Suc)
    from True "1.prems" have "packKeyActrions_loop ks len (i + 1) (data @ [modKey (ks ! i), keyCode (ks ! i)])
       = (data @ [modKey (ks ! i), keyCode (ks ! i)]) @ concat (map (\<lambda>k. [modKey k, keyCode k]) (drop (i + 1) ks))"
      by (intro "1.IH") auto
    with True d show ?thesis
      by (subst packKeyActrions_loop.simps) simp
  next
    case False
    with "1.prems" show ?thesis
      by (subst packKeyActrions_loop.simps) simp
  qed
qed

text \<open>
  Claim C4.  For a list of at most 18 key actions \<open>packKeyActrions\<close> returns the count
  followed by the \<open>modKey\<close> and the \<open>keyCode\<close> of every action in order; for a longer
  list it throws the invalid-size error and produces no bytes.
\<close>

theorem packKeyActrions_spec:
  "(length ks \<le> 18 \<longrightarrow>
      packKeyActrions ks =
        Inr (int (length ks) # concat (map (\<lambda>k. [modKey k, keyCode k]) ks))) \<and>
   (18 < length ks \<longrightarrow> packKeyActrions ks = Inl (InvalidSize (length ks)))"
  by (simp add: packKeyActrions_def packKeyActrions_loop_eq)

theorem packKeyActrions_spec_witness:
  "packKeyActrions [\<lparr>modKey = 0x01, keyCode = 0x12\<rparr>, \<lparr>modKey = 0, keyCode = 0x13\<rparr>]
     = Inr [2, 0x01, 0x12, 0, 0x13] \<and>
   packKeyActrions (replicate 19 \<lparr>modKey = 0, keyCode = 4\<rparr>) = Inl (InvalidSize 19)"
  using packKeyActrions_spec [of "[\<lparr>modKey = 0x01, keyCode = 0x12\<rparr>, \<lparr>modKey = 0, keyCode = 0x13\<rparr>]"]
    packKeyActrions_spec [of "replicate 19 \<lparr>modKey = 0, keyCode = 4\<rparr>"]
  by simp

section \<open>Packing the wheel-up action\<close>

text \<open>
  Claim C7, as amended.  The wheel-up action (\<open>modKey = 0\<close>, \<open>button = 0\<close>, \<open>x = 0\<close>,
  \<open>y = 0\<close>, \<open>wheel = 1\<close>) packs as a mouse key map to the prefix \<open>[0x03, 0, 0, 0, 0, 0]\<close>
  followed by the six-byte payload \<open>[0x04, 0x00, 0x00, 0x00, 0x00, 0x01]\<close>: the marker,
  then \<open>modKey\<close>, \<open>button\<close>, \<open>x\<close>, \<open>y\<close> and \<open>wheel\<close>.
\<close>

theorem packKeyMap_WheelUp:
  "packKeyMap (createKeyMapMouse mouse_WheelUp) =
     Inr ([0x03, 0, 0, 0, 0, 0] @ [0x04, 0x00, 0x00, 0x00, 0x00, 0x01])"
  by (simp add: packKeyMap_def packKeyMap_data_def createKeyMapMouse_def mouse_WheelUp_def
      Wheel_def emptyMouseAction_def toInt8_def packMouseAction_def isKeyMapKeys_def
      isKeyMapConsumer_def isKeyMapMouse_def KeyMapTypes_keys_def KeyMapTypes_consumer_def
      KeyMapTypes_mouse_def)

text \<open>
  The four-byte payload \<open>[0x04, 0x00, 0x00, 0x01]\<close> is not what the wheel-up action packs
  to.
\<close>

theorem packKeyMap_WheelUp_counterexample:
  "mouse_WheelUp = \<lparr>modKey = 0, button = 0, x = 0, y = 0, wheel = 1\<rparr> \<and>
   packKeyMap (createKeyMapMouse mouse_WheelUp) \<noteq>
     Inr ([0x03, 0, 0, 0, 0, 0] @ [0x04, 0x00, 0x00, 0x01])"
  by (simp add: packKeyMap_def packKeyMap_data_def createKeyMapMouse_def mouse_WheelUp_def
      Wheel_def emptyMouseAction_def toInt8_def packMouseAction_def isKeyMapKeys_def
      isKeyMapConsumer_def isKeyMapMouse_def KeyMapTypes_keys_def KeyMapTypes_consumer_def
      KeyMapTypes_mouse_def)

section \<open>Unknown key map types\<close>

lemma uint_byte_eq_iff: "uint (w :: 8 word) = 1 \<longleftrightarrow> w = 1" "uint w = 2 \<longleftrightarrow> w = 2" "uint w = 3 \<longleftrightarrow> w = 3"
  by (auto simp: word_uint_eq_iff)

lemma packKeyMap_Unknown: "\<exists>e. packKeyMap (KeyMapUnknown t b) = Inl e"
  by (simp add: packKeyMap_def packKeyMap_data_def isKeyMapKeys_def
      isKeyMapConsumer_def isKeyMapMouse_def)

lemma packKeyMap_unsupported:
  "KeyMap_type m \<notin> {KeyMapTypes_keys, KeyMapTypes_consumer, KeyMapTypes_mouse} \<Longrightarrow>
      packKeyMap m = Inl (UnsupportedKeyMapType (KeyMap_type m))"
  by (simp add: packKeyMap_def packKeyMap_data_def isKeyMapKeys_def
      isKeyMapConsumer_def isKeyMapMouse_def)

lemma unpack_unknown:
  "4 < length buffer \<Longrightarrow> buffer ! 4 \<notin> {0x01, 0x02, 0x03} \<Longrightarrow>
      unpackKeyMapWithId buffer =
        Inr \<lparr>layerId = uint (buffer ! 3), keyId = uint (buffer ! 2),
             keyMap = KeyMapUnknown (uint (buffer ! 4)) buffer\<rparr>"
  by (simp add: unpackKeyMapWithId_def readUInt8_def KeyMapTypes_keys_def KeyMapTypes_consumer_def
      KeyMapTypes_mouse_def uint_byte_eq_iff)

text \<open>
  Claim C5.  A buffer whose type byte at offset 4 is none of \<open>0x01\<close>, \<open>0x02\<close>, \<open>0x03\<close>
  unpacks without error to the unknown variant, which carries the type, the whole buffer,
  the key id of offset 2 and the layer id of offset 3.  \<open>packKeyMap\<close> throws the
  unsupported-type error for every key map whose type is none of the three known ones,
  and it throws for every key map of the unknown variant.
\<close>

theorem unknown_type:
  "(4 < length buffer \<and> buffer ! 4 \<notin> {0x01, 0x02, 0x03} \<longrightarrow>
      unpackKeyMapWithId buffer =
        Inr \<lparr>layerId = uint (buffer ! 3), keyId = uint (buffer ! 2),
             keyMap = KeyMapUnknown (uint (buffer ! 4)) buffer\<rparr>) \<and>
   (KeyMap_type m \<notin> {KeyMapTypes_keys, KeyMapTypes_consumer, KeyMapTypes_mouse} \<longrightarrow>
      packKeyMap m = Inl (UnsupportedKeyMapType (KeyMap_type m))) \<and>
   (\<exists>e. packKeyMap (KeyMapUnknown t b) = Inl e)"
  using unpack_unknown [of buffer] packKeyMap_unsupported [of m] packKeyMap_Unknown [of t b]
  by blast

theorem unknown_type_witness:
  "unpackKeyMapWithId [0x03, 0xfa, 0x07, 0x02, 0x09, 0x55] =
     Inr \<lparr>layerId = 2, keyId = 7,
          keyMap = KeyMapUnknown 9 [0x03, 0xfa, 0x07, 0x02, 0x09, 0x55]\<rparr> \<and>
   packKeyMap (KeyMapUnknown 9 [0x03, 0xfa, 0x07, 0x02, 0x09, 0x55]) = Inl (UnsupportedKeyMapType 9)"
  using unknown_type [of "[0x03, 0xfa, 0x07, 0x02, 0x09, 0x55]"
      "KeyMapUnknown 9 [0x03, 0xfa, 0x07, 0x02, 0x09, 0x55]"]
  by (simp add: KeyMapTypes_keys_def KeyMapTypes_consumer_def KeyMapTypes_mouse_def)

section \<open>Knob key ids\<close>

text \<open>
  An integer of magnitude at most \<open>2 ^ 53\<close> is a double, so rounding leaves it as it is,
  and sums, differences and products of integers are exact as long as the result stays
  in that range.
\<close>

lemma round_half_even_of_int: "round_half_even (of_int m) = m"
  by (simp add: round_half_even_def)

lemma fl_of_int_small:
  assumes "\<bar>n\<bar> < 2 ^ 53"
  shows "fl (of_int n) = of_int n"
proof (cases "n = 0")
  case True
  then show ?thesis by (simp add: fl_def)
next
  case False
  then have pos: "0 < \<bar>n\<bar>" by simp
  define e where "e = bitlen \<bar>n\<bar> - 1"
  from bitlen_bounds [OF pos] have lo: "2 ^ nat e \<le> \<bar>n\<bar>" by (simp add: e_def)
  from pos have e0: "0 \<le> e" unfolding e_def using bitlen_eq_zero_iff [of "\<bar>n\<bar>"] bitlen_nonneg [of "\<bar>n\<bar>"] by linarith
  from lo assms have lt: "(2 :: int) ^ nat e < 2 ^ 53" by linarith
  have "nat e < 53"
  proof (rule power_less_imp_less_exp)
    show "(1 :: int) < 2" by simp
    show "(2 :: int) ^ nat e < 2 ^ 53" by (rule lt)
  qed
  with e0 have e52: "e \<le> 52" by linarith
  have "\<bar>of_int n :: rat\<bar> = of_int \<bar>n\<bar>" by simp
  moreover from pos have "1 \<le> \<bar>n\<bar>" by linarith
  then have "(1 :: rat) \<le> of_int \<bar>n\<bar>" by (simp only: of_int_1_le_iff)
  ultimately have b: "binade (of_int n) = e"
    unfolding binade_def Let_def e_def by (simp only: if_True floor_of_int)
  define j where "j = nat (52 - e)"
  have u: "pow2 (max e (- 1022) - 52) = 1 / 2 ^ j"
    using e0 e52 by (auto simp: pow2_def j_def max_def)
  have "of_int n / (1 / 2 ^ j :: rat) = of_int (n * 2 ^ j)" by simp
  then have "round_half_even (of_int n / (1 / 2 ^ j)) = n * 2 ^ j"
    by (simp only: round_half_even_of_int)
  then show ?thesis
    using False by (simp add: fl_def b u)
qed

lemma fl_2_53: "fl 9007199254740992 = 9007199254740992" "fl (- 9007199254740992) = - 9007199254740992"
  by code_simp+

lemma fl_of_int:
  assumes "\<bar>n\<bar> \<le> 2 ^ 53"
  shows "fl (of_int n) = of_int n"
proof (cases "\<bar>n\<bar> < 2 ^ 53")
  case True
  then show ?thesis by (rule fl_of_int_small)
next
  case False
  with assms have "n = 9007199254740992 \<or> n = - 9007199254740992" by auto
  then show ?thesis using fl_2_53 by auto
qed

lemma js_add_int: "\<bar>a + b\<bar> \<le> 2 ^ 53 \<Longrightarrow> js_add (of_int a) (of_int b) = of_int (a + b)"
  using fl_of_int [of "a + b"] by (simp add: js_add_def)

lemma js_sub_int: "\<bar>a - b\<bar> \<le> 2 ^ 53 \<Longrightarrow> js_sub (of_int a) (of_int b) = of_int (a - b)"
  using fl_of_int [of "a - b"] by (simp add: js_sub_def)

lemma js_mul_int: "\<bar>a * b\<bar> \<le> 2 ^ 53 \<Longrightarrow> js_mul (of_int a) (of_int b) = of_int (a * b)"
  using fl_of_int [of "a * b"] by (simp add: js_mul_def)

lemma js_div_3: "\<bar>m\<bar> \<le> 2 ^ 53 \<Longrightarrow> js_div (of_int (3 * m)) 3 = of_int m"
  using fl_of_int [of m] by (simp add: js_div_def)

lemma js_rem_3: "0 \<le> n \<Longrightarrow> js_rem (of_int n) 3 = of_int (n mod 3)"
proof -
  assume n: "0 \<le> n"
  have "\<lfloor>(of_int n :: rat) / 3\<rfloor> = n div 3"
    using floor_divide_of_int_eq [of n 3, where ?'a = rat] by simp
  moreover have "n - 3 * (n div 3) = n mod 3" by (simp add: minus_mult_div_eq_mod)
  ultimately show ?thesis
    using n by (simp add: js_rem_def js_trunc_def flip: of_int_diff of_int_mult)
qed

lemma findKnobActionName_cases:
  "findKnobActionName 0 = Some ''Left''" "findKnobActionName 1 = Some ''Click''"
  "findKnobActionName 2 = Some ''Right''"
  by (simp_all add: findKnobActionName_def KnobActions_def)

lemma findKnobAction_name:
  "a \<in> {0, 1, 2 :: int} \<Longrightarrow>
   \<exists>n. findKnobActionName (of_int a) = Some n \<and> findKnobAction n = Some (of_int a)"
  by (auto simp: findKnobActionName_def findKnobAction_def KnobActions_def)

lemma getKeyIdForKnob_exact:
  assumes "\<bar>keys info\<bar> \<le> 2 ^ 50" "1 \<le> k" "k \<le> 2 ^ 50" "a \<in> {0, 1, 2}"
  shows "getKeyIdForKnob info (of_int k) (of_int a) = of_int (1 + keys info + 3 * (k - 1) + a)"
proof -
  have s1: "js_add 1 (of_int (keys info)) = of_int (1 + keys info)"
    using js_add_int [of 1 "keys info"] assms(1) by simp
  have s2: "js_sub (of_int k) 1 = of_int (k - 1)"
    using js_sub_int [of k 1] assms(2,3) by simp
  have s3: "js_mul 3 (of_int (k - 1)) = of_int (3 * (k - 1))"
    using js_mul_int [of 3 "k - 1"] assms(2,3) by simp
  have s4: "js_add (of_int (1 + keys info)) (of_int (3 * (k - 1))) = of_int (1 + keys info + 3 * (k - 1))"
    using assms(1,2,3) by (intro js_add_int) simp
  have s5: "js_add (of_int (1 + keys info + 3 * (k - 1))) (of_int a) =
      of_int (1 + keys info + 3 * (k - 1) + a)"
    using assms by (intro js_add_int) auto
  show ?thesis
    unfolding getKeyIdForKnob_def s1 s2 s3 s4 s5 ..
qed

lemma getKnobByKeyId_exact:
  assumes "\<bar>keys info\<bar> \<le> 2 ^ 50" "keys info < kid" "kid \<le> 2 ^ 52"
  shows "getKnobByKeyId info (of_int kid) =
     Some \<lparr>knobId = of_int (1 + (kid - 1 - keys info) div 3),
          knobAction = findKnobActionName (of_int ((kid - 1 - keys info) mod 3))\<rparr>"
proof -
  define knob where "knob = kid - 1 - keys info"
  from assms have kb: "0 \<le> knob" "knob \<le> 2 ^ 53" by (simp_all add: knob_def)
  have gt: "\<not> (of_int kid :: rat) \<le> of_int (keys info)" using assms(2) by simp
  have s1: "js_sub (of_int kid) 1 = of_int (kid - 1)"
    using js_sub_int [of kid 1] assms by simp
  have s2: "js_sub (of_int (kid - 1)) (of_int (keys info)) = of_int knob"
    unfolding knob_def using assms by (intro js_sub_int) simp
  have s3: "js_rem (of_int knob) 3 = of_int (knob mod 3)"
    using kb(1) by (rule js_rem_3)
  have m: "0 \<le> knob mod 3" "knob mod 3 < 3" by simp_all
  have d: "knob - knob mod 3 = 3 * (knob div 3)" by (simp add: minus_mod_eq_mult_div)
  have q1: "0 \<le> knob div 3" using kb(1) by (simp add: div_int_pos_iff)
  have q2: "knob div 3 \<le> knob" using d m q1 by linarith
  note q = q1 q2
  have s4: "js_sub (of_int knob) (of_int (knob mod 3)) = of_int (3 * (knob div 3))"
    unfolding d [symmetric] using kb m by (intro js_sub_int) simp
  have s5: "js_div (of_int (3 * (knob div 3))) 3 = of_int (knob div 3)"
    using q kb by (intro js_div_3) simp
  have s6: "js_add 1 (of_int (knob div 3)) = of_int (1 + knob div 3)"
    using js_add_int [of 1 "knob div 3"] q kb by simp
  show ?thesis
    unfolding getKnobByKeyId_def Let_def s1 s2 s3 s4 s5 s6 knob_def [symmetric]
    using gt by simp
qed


text \<open>
  Claim C2, as amended.  For every keypad info with \<open>\<bar>keys\<bar> \<le> 2 ^ 50\<close>, every integer knob
  id \<open>k\<close> with \<open>1 \<le> k \<le> 2 ^ 50\<close> and every knob action \<open>a\<close> among Left = 0, Click = 1,
  Right = 2, the key id of the knob is \<open>1 + keys + 3 * (k - 1) + a\<close> and \<open>getKnobByKeyId\<close>
  maps that key id back to \<open>k\<close> and the name of \<open>a\<close>.  In the other direction every
  integer key id above \<open>keys\<close> and at most \<open>2 ^ 50\<close> is the key id of the knob and action
  that \<open>getKnobByKeyId\<close> returns for it.  In this range every step of the arithmetic is
  exact.
\<close>

theorem knob_bijection:
  "(\<bar>keys info\<bar> \<le> 2 ^ 50 \<and> 1 \<le> k \<and> k \<le> 2 ^ 50 \<and> a \<in> {0, 1, 2} \<longrightarrow>
      getKeyIdForKnob info (of_int k) (of_int a) = of_int (1 + keys info + 3 * (k - 1) + a) \<and>
      getKnobByKeyId info (getKeyIdForKnob info (of_int k) (of_int a)) =
        Some \<lparr>knobId = of_int k, knobAction = findKnobActionName (of_int a)\<rparr> \<and>
      (\<exists>n. findKnobActionName (of_int a) = Some n \<and> findKnobAction n = Some (of_int a))) \<and>
   (\<bar>keys info\<bar> \<le> 2 ^ 50 \<and> keys info < kid \<and> kid \<le> 2 ^ 50 \<longrightarrow>
      (\<exists>k' n a'. getKnobByKeyId info (of_int kid) = Some \<lparr>knobId = of_int k', knobAction = Some n\<rparr> \<and>
         1 \<le> k' \<and> findKnobAction n = Some (of_int a') \<and> a' \<in> {0, 1, 2} \<and>
         getKeyIdForKnob info (of_int k') (of_int a') = of_int kid))"
proof (intro conjI impI)
  assume h: "\<bar>keys info\<bar> \<le> 2 ^ 50 \<and> 1 \<le> k \<and> k \<le> 2 ^ 50 \<and> a \<in> {0, 1, 2}"
  then have hk: "\<bar>keys info\<bar> \<le> 2 ^ 50" "1 \<le> k" "k \<le> 2 ^ 50" "a \<in> {0, 1, 2}" by simp_all
  define kid where "kid = 1 + keys info + 3 * (k - 1) + a"
  show e: "getKeyIdForKnob info (of_int k) (of_int a) = of_int (1 + keys info + 3 * (k - 1) + a)"
    by (rule getKeyIdForKnob_exact [OF hk])
  from hk have a02: "0 \<le> a" "a \<le> 2" by auto
  from hk a02 have b: "keys info < kid" "kid \<le> 2 ^ 52" by (simp_all add: kid_def)
  have kn: "kid - 1 - keys info = 3 * (k - 1) + a" by (simp add: kid_def)
  have "(3 * (k - 1) + a) mod 3 = a mod 3" by (rule mod_mult_self4)
  with a02 have m: "(3 * (k - 1) + a) mod 3 = a" by simp
  have "(3 * (k - 1) + a) div 3 = (k - 1) + a div 3" by simp
  with a02 have d: "(3 * (k - 1) + a) div 3 = k - 1" by simp
  from getKnobByKeyId_exact [OF hk(1) b]
  have "getKnobByKeyId info (of_int kid) =
        Some \<lparr>knobId = of_int k, knobAction = findKnobActionName (of_int a)\<rparr>"
    unfolding kn m d by simp
  then show "getKnobByKeyId info (getKeyIdForKnob info (of_int k) (of_int a)) =
        Some \<lparr>knobId = of_int k, knobAction = findKnobActionName (of_int a)\<rparr>"
    unfolding e kid_def .
  from hk(4) show "\<exists>n. findKnobActionName (of_int a) = Some n \<and> findKnobAction n = Some (of_int a)"
    by (rule findKnobAction_name)
next
  assume h: "\<bar>keys info\<bar> \<le> 2 ^ 50 \<and> keys info < kid \<and> kid \<le> 2 ^ 50"
  then have hk: "\<bar>keys info\<bar> \<le> 2 ^ 50" "keys info < kid" "kid \<le> 2 ^ 50" by simp_all
  define knob where "knob = kid - 1 - keys info"
  from hk have nn: "0 \<le> knob" "knob \<le> 2 ^ 51" by (simp_all add: knob_def)
  have "0 \<le> knob mod 3 \<and> knob mod 3 < 3" by simp
  then have "knob mod 3 = 0 \<or> knob mod 3 = 1 \<or> knob mod 3 = 2" by linarith
  then have ain: "knob mod 3 \<in> {0, 1, 2}" by simp
  from findKnobAction_name [OF ain]
  obtain n where n: "findKnobActionName (of_int (knob mod 3)) = Some n"
      "findKnobAction n = Some (of_int (knob mod 3))"
    by (elim exE conjE)
  from hk(3) have k52: "kid \<le> 2 ^ 52" by simp
  have g: "getKnobByKeyId info (of_int kid) =
      Some \<lparr>knobId = of_int (1 + knob div 3), knobAction = Some n\<rparr>"
    using getKnobByKeyId_exact [OF hk(1,2) k52] n(1) by (simp add: knob_def)
  have q1: "0 \<le> knob div 3" using nn(1) by (simp add: div_int_pos_iff)
  have dm: "3 * (knob div 3) + knob mod 3 = knob" by simp
  have q2: "knob div 3 \<le> knob" using dm q1 ain by auto
  have k1: "1 \<le> 1 + knob div 3" using q1 by simp
  have k2: "1 + knob div 3 \<le> 2 ^ 50"
  proof -
    from dm ain have "3 * (knob div 3) \<le> knob" by auto
    with nn(2) show ?thesis by simp
  qed
  have "getKeyIdForKnob info (of_int (1 + knob div 3)) (of_int (knob mod 3)) =
     of_int (1 + keys info + 3 * (1 + knob div 3 - 1) + knob mod 3)"
    by (rule getKeyIdForKnob_exact [OF hk(1) k1 k2 ain])
  also have "1 + keys info + 3 * (1 + knob div 3 - 1) + knob mod 3 = kid"
    using dm by (simp add: knob_def)
  finally have rinv: "getKeyIdForKnob info (of_int (1 + knob div 3)) (of_int (knob mod 3)) = of_int kid" .
  show "\<exists>k' n a'. getKnobByKeyId info (of_int kid) = Some \<lparr>knobId = of_int k', knobAction = Some n\<rparr> \<and>
         1 \<le> k' \<and> findKnobAction n = Some (of_int a') \<and> a' \<in> {0, 1, 2} \<and>
         getKeyIdForKnob info (of_int k') (of_int a') = of_int kid"
    by (intro exI conjI) (rule g, rule k1, rule n(2), rule ain, rule rinv)
qed

theorem knob_bijection_witness:
  "getKeyIdForKnob \<lparr>keys = 3, knobs = 2\<rparr> 2 1 = 8 \<and>
   getKnobByKeyId \<lparr>keys = 3, knobs = 2\<rparr> 8 = Some \<lparr>knobId = 2, knobAction = Some ''Click''\<rparr> \<and>
   findKnobAction ''Click'' = Some 1 \<and>
   (\<exists>k' n a'. getKnobByKeyId \<lparr>keys = 3, knobs = 2\<rparr> (of_int 8) =
        Some \<lparr>knobId = of_int k', knobAction = Some n\<rparr> \<and>
      1 \<le> k' \<and> findKnobAction n = Some (of_int a') \<and> a' \<in> {0, 1, 2} \<and>
      getKeyIdForKnob \<lparr>keys = 3, knobs = 2\<rparr> (of_int k') (of_int a') = of_int 8)"
proof -
  have p: "\<bar>keys \<lparr>keys = 3, knobs = 2\<rparr>\<bar> \<le> 2 ^ 50 \<and> 1 \<le> (2 :: int) \<and> (2 :: int) \<le> 2 ^ 50 \<and>
      (1 :: int) \<in> {0, 1, 2}"
    by simp
  have q: "\<bar>keys \<lparr>keys = 3, knobs = 2\<rparr>\<bar> \<le> 2 ^ 50 \<and> keys \<lparr>keys = 3, knobs = 2\<rparr> < 8 \<and>
      (8 :: int) \<le> 2 ^ 50"
    by simp
  note c = knob_bijection [of "\<lparr>keys = 3, knobs = 2\<rparr>" 2 1 8, THEN conjunct1, rule_format, OF p]
  note d = knob_bijection [of "\<lparr>keys = 3, knobs = 2\<rparr>" 2 1 8, THEN conjunct2, rule_format, OF q]
  from c [THEN conjunct1] have e: "getKeyIdForKnob \<lparr>keys = 3, knobs = 2\<rparr> 2 1 = 8" by simp
  from c [THEN conjunct2, THEN conjunct1]
  have "getKnobByKeyId \<lparr>keys = 3, knobs = 2\<rparr> (getKeyIdForKnob \<lparr>keys = 3, knobs = 2\<rparr> 2 1) =
      Some \<lparr>knobId = 2, knobAction = findKnobActionName 1\<rparr>"
    by simp
  then have "getKnobByKeyId \<lparr>keys = 3, knobs = 2\<rparr> 8 =
      Some \<lparr>knobId = 2, knobAction = findKnobActionName 1\<rparr>"
    unfolding e .
  with e have "getKeyIdForKnob \<lparr>keys = 3, knobs = 2\<rparr> 2 1 = 8 \<and>
   getKnobByKeyId \<lparr>keys = 3, knobs = 2\<rparr> 8 = Some \<lparr>knobId = 2, knobAction = Some ''Click''\<rparr> \<and>
   findKnobAction ''Click'' = Some 1"
    by (simp add: findKnobActionName_cases findKnobAction_def KnobActions_def)
  with d show ?thesis by (intro conjI) (elim conjE, assumption)+
qed

text \<open>
  Beyond the integers that a double holds exactly the two functions are not inverse:
  with \<open>keys = 2 ^ 53\<close>, knob 1 and the action Click the sum \<open>1 + keys\<close> rounds back to
  \<open>2 ^ 53\<close>, the key id computed is \<open>2 ^ 53\<close> and not \<open>2 ^ 53 + 2\<close>, and no knob is found
  for it.
\<close>

theorem knob_bijection_counterexample:
  "getKeyIdForKnob \<lparr>keys = 9007199254740992, knobs = 0\<rparr> 1 1 = 9007199254740992 \<and>
   getKeyIdForKnob \<lparr>keys = 9007199254740992, knobs = 0\<rparr> 1 1 \<noteq>
     1 + 9007199254740992 + 3 * (1 - 1) + 1 \<and>
   getKnobByKeyId \<lparr>keys = 9007199254740992, knobs = 0\<rparr>
     (getKeyIdForKnob \<lparr>keys = 9007199254740992, knobs = 0\<rparr> 1 1) = None"
  by code_simp


section \<open>Request framing\<close>

lemma sendRequest_loop_eq:
  "sendRequest_loop req i = req @ replicate (REQUEST_SIZE - i) 0"
proof (induction req i rule: sendRequest_loop.induct)
  case (1 req i)
  show ?case
  proof (cases "i < REQUEST_SIZE")
    case True
    then have "REQUEST_SIZE - i = Suc (REQUEST_SIZE - (i + 1))" by simp
    with True "1.IH" show ?thesis
      by (subst sendRequest_loop.simps) (simp add: replicate_app_Cons_same)
  next
    case False
    then show ?thesis by (subst sendRequest_loop.simps) simp
  qed
qed

text \<open>
  Claim C8, as amended.  \<open>sendRequest\<close> writes one array: the payload followed by zeros.
  For a payload of at most \<open>REQUEST_SIZE = 65\<close> numbers the array written has exactly 65
  entries; a longer payload is written as it is, with more than 65 entries.
\<close>

theorem sendRequest_padding:
  "written (sendRequest hid request) =
     written hid @ [request @ replicate (REQUEST_SIZE - length request) 0] \<and>
   (length request \<le> REQUEST_SIZE \<longrightarrow>
      length (last (written (sendRequest hid request))) = REQUEST_SIZE) \<and>
   (REQUEST_SIZE < length request \<longrightarrow> last (written (sendRequest hid request)) = request)"
  by (simp add: sendRequest_def hid_write_def sendRequest_loop_eq)

theorem sendRequest_padding_witness:
  "written (sendRequest \<lparr>written = [], reads = 0, incoming = []\<rparr> [0x03, 0xfb, 0xfb, 0xfb]) =
     [[0x03, 0xfb, 0xfb, 0xfb] @ replicate 61 0] \<and>
   length (last (written (sendRequest \<lparr>written = [], reads = 0, incoming = []\<rparr>
     [0x03, 0xfb, 0xfb, 0xfb]))) = 65 \<and>
   last (written (sendRequest \<lparr>written = [], reads = 0, incoming = []\<rparr> (replicate 66 7))) =
     replicate 66 7"
  using sendRequest_padding [of "\<lparr>written = [], reads = 0, incoming = []\<rparr>" "[0x03, 0xfb, 0xfb, 0xfb]"]
    sendRequest_padding [of "\<lparr>written = [], reads = 0, incoming = []\<rparr>" "replicate 66 7"]
  by (simp add: REQUEST_SIZE_def)

text \<open>A payload of 66 numbers is written as a request that is not 65 long.\<close>

theorem sendRequest_size_counterexample:
  "length (last (written (sendRequest \<lparr>written = [], reads = 0, incoming = []\<rparr> (replicate 66 7))))
     \<noteq> REQUEST_SIZE"
  by (simp add: sendRequest_def hid_write_def sendRequest_loop_eq REQUEST_SIZE_def)

section \<open>Unpacking key actions\<close>

lemma uint_byte_bound: "uint (w :: 8 word) < 256"
  using uint_bounded [of w] by simp

lemma sint_byte:
  "sint (w :: 8 word) = (if uint w < 128 then uint w else uint w - 256)"
proof -
  have w: "word_of_int (uint w) = w" by simp
  have b: "0 \<le> uint w" "uint w \<le> 255" using uint_byte_bound [of w] by simp_all
  show ?thesis
  proof (cases "uint w < 128")
    case True
    with b have "sint (word_of_int (uint w) :: 8 word) = uint w"
      by (intro sint_byte_low) auto
    with True show ?thesis by (simp only: w if_True)
  next
    case False
    with b have "sint (word_of_int (uint w) :: 8 word) = uint w - 256"
      by (intro sint_byte_high) auto
    with False show ?thesis by (simp only: w if_False)
  qed
qed


lemma unpackKeyActions_loop_ok:
  "int i \<le> len \<Longrightarrow> 11 + 2 * nat len \<le> length buffer \<Longrightarrow>
   unpackKeyActions_loop buffer len i ks = Inr (ks @ map (pairAt buffer) [i..<nat len])"
proof (induction buffer len i ks rule: unpackKeyActions_loop.induct)
  case (1 buffer len i ks)
  show ?case
  proof (cases "int i < len")
    case True
    then have r1: "readUInt8 buffer (0x0B + 2 * i) = Inr (uint (buffer ! (0x0B + 2 * i)))"
      and r2: "readUInt8 buffer (0x0B + 2 * i + 1) = Inr (uint (buffer ! (0x0B + 2 * i + 1)))"
      using "1.prems" by (auto simp: readUInt8_def)
    from True have u: "[i..<nat len] = i # [i + 1..<nat len]"
      by (simp add: upt_conv_Cons)
    have "unpackKeyActions_loop buffer len (i + 1) (ks @ [pairAt buffer i])
        = Inr ((ks @ [pairAt buffer i]) @ map (pairAt buffer) [i + 1..<nat len])"
      using "1.IH" [OF True r1 r2] True "1.prems" by (simp add: pairAt_def)
    with True r1 r2 u show ?thesis
      by (subst unpackKeyActions_loop.simps) (simp add: pairAt_def)
  next
    case False
    with "1.prems" have "[i..<nat len] = []" by simp
    with False show ?thesis by (subst unpackKeyActions_loop.simps) simp
  qed
qed

lemma unpackKeyActions_loop_short:
  "int i < len \<Longrightarrow> length buffer < 11 + 2 * nat len \<Longrightarrow>
   unpackKeyActions_loop buffer len i ks = Inl RangeError"
proof (induction buffer len i ks rule: unpackKeyActions_loop.induct)
  case (1 buffer len i ks)
  show ?case
  proof (cases "0x0B + 2 * i + 1 < length buffer")
    case True
    then have r1: "readUInt8 buffer (0x0B + 2 * i) = Inr (uint (buffer ! (0x0B + 2 * i)))"
      and r2: "readUInt8 buffer (0x0B + 2 * i + 1) = Inr (uint (buffer ! (0x0B + 2 * i + 1)))"
      by (auto simp: readUInt8_def)
    from True "1.prems" have nx: "int (i + 1) < len" by auto
    have "unpackKeyActions_loop buffer len (i + 1) (ks @ [pairAt buffer i]) = Inl RangeError"
      using "1.IH" [OF "1.prems"(1) r1 r2 nx "1.prems"(2)] by (simp add: pairAt_def)
    with "1.prems" r1 r2 show ?thesis
      by (subst unpackKeyActions_loop.simps) (simp add: pairAt_def)
  next
    case False
    with "1.prems" show ?thesis
      by (subst unpackKeyActions_loop.simps) (auto simp: readUInt8_def split: sum.splits)
  qed
qed

lemma unpackKeyActions_negative:
  "10 < length buffer \<Longrightarrow> 0x80 \<le> buffer ! 10 \<Longrightarrow> unpackKeyActions buffer = Inr []"
proof -
  assume l: "10 < length buffer" and h: "0x80 \<le> buffer ! 10"
  from h have "128 \<le> uint (buffer ! 10)" by (simp add: word_le_def)
  then have "sint (buffer ! 10) < 0" using uint_byte_bound [of "buffer ! 10"] by (simp add: sint_byte)
  then have "unpackKeyActions_loop buffer (sint (buffer ! 10)) 0 [] = Inr []"
    by (subst unpackKeyActions_loop.simps) simp
  with l show ?thesis by (simp add: unpackKeyActions_def readInt8_def)
qed

lemma unpackKeyActions_positive:
  assumes "10 < length buffer" and "buffer ! 10 < 0x80"
  shows "unpackKeyActions buffer =
     (if 11 + 2 * unat (buffer ! 10) \<le> length buffer
      then Inr (map (pairAt buffer) [0..<unat (buffer ! 10)])
      else Inl RangeError)"
proof -
  from assms(2) have "uint (buffer ! 10) < 128" by (simp add: word_less_def)
  then have s: "sint (buffer ! 10) = int (unat (buffer ! 10))" by (simp add: sint_byte)
  show ?thesis
  proof (cases "11 + 2 * unat (buffer ! 10) \<le> length buffer")
    case True
    then have "unpackKeyActions_loop buffer (int (unat (buffer ! 10))) 0 [] =
       Inr ([] @ map (pairAt buffer) [0..<nat (int (unat (buffer ! 10)))])"
      by (intro unpackKeyActions_loop_ok) auto
    with True assms(1) s show ?thesis by (simp add: unpackKeyActions_def readInt8_def)
  next
    case False
    with assms(1) have "0 < unat (buffer ! 10)" by arith
    then have pos: "int 0 < int (unat (buffer ! 10))" by (simp only: of_nat_less_iff)
    from False have "unpackKeyActions_loop buffer (int (unat (buffer ! 10))) 0 [] = Inl RangeError"
      by (intro unpackKeyActions_loop_short [OF pos]) auto
    with False assms(1) s show ?thesis by (simp add: unpackKeyActions_def readInt8_def)
  qed
qed


text \<open>
  Claim C10, as amended.  \<open>unpackKeyActions\<close> reads the count at offset \<open>0x0A\<close> as a signed
  byte and checks no upper bound.  A count byte in \<open>[0x80, 0xFF]\<close> gives the empty list.
  A count byte \<open>c\<close> in \<open>[0, 0x7F]\<close> gives exactly the \<open>c\<close> pairs that start at offset \<open>0x0B\<close>
  when the buffer holds them all, also for \<open>c\<close> above 18, and a range error when the buffer
  is too short.  On a report of 65 bytes the read runs past the end exactly for the
  counts above 27.
\<close>

theorem unpackKeyActions_count:
  "10 < length buffer \<longrightarrow>
     (0x80 \<le> buffer ! 10 \<longrightarrow> unpackKeyActions buffer = Inr []) \<and>
     (buffer ! 10 < 0x80 \<and> 11 + 2 * unat (buffer ! 10) \<le> length buffer \<longrightarrow>
        unpackKeyActions buffer = Inr (map (pairAt buffer) [0..<unat (buffer ! 10)])) \<and>
     (buffer ! 10 < 0x80 \<and> length buffer < 11 + 2 * unat (buffer ! 10) \<longrightarrow>
        unpackKeyActions buffer = Inl RangeError) \<and>
     (buffer ! 10 < 0x80 \<and> length buffer = REQUEST_SIZE \<longrightarrow>
        (unpackKeyActions buffer = Inl RangeError \<longleftrightarrow> 27 < unat (buffer ! 10)))"
proof (intro impI conjI)
  assume l: "10 < length buffer"
  { assume "0x80 \<le> buffer ! 10"
    with l show "unpackKeyActions buffer = Inr []" by (rule unpackKeyActions_negative) }
  { assume "buffer ! 10 < 0x80 \<and> 11 + 2 * unat (buffer ! 10) \<le> length buffer"
    with l show "unpackKeyActions buffer = Inr (map (pairAt buffer) [0..<unat (buffer ! 10)])"
      by (simp add: unpackKeyActions_positive) }
  { assume "buffer ! 10 < 0x80 \<and> length buffer < 11 + 2 * unat (buffer ! 10)"
    with l show "unpackKeyActions buffer = Inl RangeError"
      by (simp add: unpackKeyActions_positive) }
  { assume "buffer ! 10 < 0x80 \<and> length buffer = REQUEST_SIZE"
    with l show "unpackKeyActions buffer = Inl RangeError \<longleftrightarrow> 27 < unat (buffer ! 10)"
      by (auto simp: unpackKeyActions_positive REQUEST_SIZE_def) }
qed

lemma pairs_of_zeros:
  "map (pairAt (replicate 10 0 @ c # replicate 54 0)) [0..<27] =
     replicate 27 \<lparr>modKey = 0, keyCode = 0\<rparr>"
  by (rule replicate_eqI) (auto simp: pairAt_def nth_append)

text \<open>
  A report of 65 bytes with the count 27 is read without leaving the buffer: the last
  byte read is the one at offset 64.
\<close>

theorem unpackKeyActions_count_27_counterexample:
  "length (replicate 10 0 @ [27 :: 8 word] @ replicate 54 0) = REQUEST_SIZE \<and>
   unpackKeyActions (replicate 10 0 @ [27] @ replicate 54 0) =
     Inr (replicate 27 \<lparr>modKey = 0, keyCode = 0\<rparr>)"
proof -
  have "unpackKeyActions (replicate 10 0 @ [27] @ replicate 54 0) =
     Inr (map (pairAt (replicate 10 0 @ [27] @ replicate 54 0)) [0..<27])"
    by (subst unpackKeyActions_positive) (simp_all add: nth_append)
  then show ?thesis by (simp add: pairs_of_zeros REQUEST_SIZE_def)
qed

theorem unpackKeyActions_count_witness:
  "unpackKeyActions [0x03, 0xfa, 0x0f, 0x01, 0x01, 0, 0, 0, 0, 0, 0xFF, 0x00, 0x12] = Inr [] \<and>
   unpackKeyActions [0x03, 0xfa, 0x0f, 0x01, 0x01, 0, 0, 0, 0, 0, 0x02, 0x00, 0x12, 0x01, 0x23] =
     Inr [\<lparr>modKey = 0x00, keyCode = 0x12\<rparr>, \<lparr>modKey = 0x01, keyCode = 0x23\<rparr>] \<and>
   unpackKeyActions [0x03, 0xfa, 0x0f, 0x01, 0x01, 0, 0, 0, 0, 0, 0x02, 0x00, 0x12, 0x01] =
     Inl RangeError \<and>
   unpackKeyActions (replicate 10 0 @ [28] @ replicate 54 0) = Inl RangeError"
  using
    unpackKeyActions_count [of "[0x03, 0xfa, 0x0f, 0x01, 0x01, 0, 0, 0, 0, 0, 0xFF, 0x00, 0x12]"]
    unpackKeyActions_count [of "[0x03, 0xfa, 0x0f, 0x01, 0x01, 0, 0, 0, 0, 0, 0x02, 0x00, 0x12, 0x01, 0x23]"]
    unpackKeyActions_count [of "[0x03, 0xfa, 0x0f, 0x01, 0x01, 0, 0, 0, 0, 0, 0x02, 0x00, 0x12, 0x01]"]
    unpackKeyActions_count [of "replicate 10 0 @ [28] @ replicate 54 0"]
  by (simp add: pairAt_def nth_append REQUEST_SIZE_def upt_rec)


section \<open>The round trip of pack and unpack\<close>

lemma packKeyActrions_ok:
  "length ks \<le> 18 \<Longrightarrow>
   packKeyActrions ks = Inr (int (length ks) # concat (map (\<lambda>k. [modKey k, keyCode k]) ks))"
  by (simp add: packKeyActrions_def packKeyActrions_loop_eq)

lemma concat_pairs:
  "length xs = 2 * c \<Longrightarrow>
   concat (map (\<lambda>j. [f (xs ! (2 * j)), f (xs ! (2 * j + 1))]) [0..<c]) = map f xs"
proof (induction c arbitrary: xs)
  case 0
  then show ?case by simp
next
  case (Suc c)
  then obtain a b zs where xs: "xs = a # b # zs" and lz: "length zs = 2 * c"
    by (cases xs; cases "tl xs") auto
  have u: "[0..<Suc c] = 0 # map Suc [0..<c]"
    by (simp add: upt_conv_Cons map_Suc_upt del: upt_Suc)
  show ?case
    unfolding u xs using Suc.IH [OF lz, symmetric] by (simp add: comp_def)
qed

lemma pairs_of_drop:
  assumes "length buffer = 11 + 2 * c"
  shows "concat (map (\<lambda>k. [modKey k, keyCode k]) (map (pairAt buffer) [0..<c])) =
         map uint (drop 11 buffer)"
proof -
  have l: "length (drop 11 buffer) = 2 * c" using assms by simp
  have "concat (map (\<lambda>k. [modKey k, keyCode k]) (map (pairAt buffer) [0..<c])) =
        concat (map (\<lambda>j. [uint (drop 11 buffer ! (2 * j)), uint (drop 11 buffer ! (2 * j + 1))]) [0..<c])"
    using assms by (auto simp: pairAt_def comp_def intro!: arg_cong [where f = concat])
  also have "\<dots> = map uint (drop 11 buffer)" by (rule concat_pairs [OF l])
  finally show ?thesis .
qed

lemma drop4:
  "11 \<le> length buffer \<Longrightarrow>
   drop 4 buffer = buffer ! 4 # buffer ! 5 # buffer ! 6 # buffer ! 7 # buffer ! 8 # buffer ! 9 #
     buffer ! 10 # drop 11 buffer"
  by (simp add: Cons_nth_drop_Suc [symmetric])


lemma KeyMapTypes_simps:
  "KeyMapTypes_keys = 1" "KeyMapTypes_consumer = 2" "KeyMapTypes_mouse = 3"
  by (simp_all add: KeyMapTypes_keys_def KeyMapTypes_consumer_def KeyMapTypes_mouse_def)

lemma packKeyMap_simps:
  "packKeyMap (KeyMapKeys ks) =
     (case packKeyActrions ks of Inl e \<Rightarrow> Inl e | Inr d \<Rightarrow> Inr ([1, 0, 0, 0, 0, 0] @ d))"
  "packKeyMap (KeyMapConsumer c) = Inr ([2, 0, 0, 0, 0, 0] @ packConsumerAction c)"
  "packKeyMap (KeyMapMouse m) = Inr ([3, 0, 0, 0, 0, 0] @ packMouseAction m)"
  by (simp_all add: packKeyMap_def packKeyMap_data_def isKeyMapKeys_def isKeyMapConsumer_def
      isKeyMapMouse_def KeyMapTypes_simps split: sum.splits)

lemma unpack_pack_keys:
  assumes "11 \<le> length buffer"
    and z: "buffer ! 5 = 0" "buffer ! 6 = 0" "buffer ! 7 = 0" "buffer ! 8 = 0" "buffer ! 9 = 0"
    and t: "buffer ! 4 = 0x01" and c: "unat (buffer ! 10) \<le> 18"
    and l: "length buffer = 11 + 2 * unat (buffer ! 10)"
  shows "unpackKeyMapWithId buffer =
           Inr \<lparr>layerId = uint (buffer ! 3), keyId = uint (buffer ! 2),
                keyMap = KeyMapKeys (map (pairAt buffer) [0..<unat (buffer ! 10)])\<rparr>"
    and "packKeyMap (KeyMapKeys (map (pairAt buffer) [0..<unat (buffer ! 10)])) =
           Inr (drop 4 (Array_from buffer))"
proof -
  from c have "unat (buffer ! 10) < unat (0x80 :: 8 word)" by simp
  then have lt: "buffer ! 10 < 0x80" by (simp only: word_less_nat_alt)
  have u: "unpackKeyActions buffer = Inr (map (pairAt buffer) [0..<unat (buffer ! 10)])"
    using assms(1) l by (simp add: unpackKeyActions_positive [OF _ lt])
  show "unpackKeyMapWithId buffer =
           Inr \<lparr>layerId = uint (buffer ! 3), keyId = uint (buffer ! 2),
                keyMap = KeyMapKeys (map (pairAt buffer) [0..<unat (buffer ! 10)])\<rparr>"
    using assms(1) t u by (simp add: unpackKeyMapWithId_def readUInt8_def KeyMapTypes_simps)
  have p: "packKeyActrions (map (pairAt buffer) [0..<unat (buffer ! 10)]) =
     Inr (uint (buffer ! 10) # map uint (drop 11 buffer))"
    using c by (simp add: packKeyActrions_ok pairs_of_drop [OF l] del: map_map)
  show "packKeyMap (KeyMapKeys (map (pairAt buffer) [0..<unat (buffer ! 10)])) =
           Inr (drop 4 (Array_from buffer))"
    using z t by (simp add: packKeyMap_simps p Array_from_def drop_map drop4 [OF assms(1)])
qed

lemma uint16_split:
  assumes "0 \<le> a" "a < 256" "0 \<le> b" "b < 256"
  shows "splitUInt16LE (a + 256 * b) = [a, b]"
proof -
  have "(a + 256 * b) mod 256 = a" using assms by simp
  moreover have "(a + 256 * b) div 256 = b" using assms by simp
  moreover have "b mod 256 = b" using assms by simp
  ultimately show ?thesis
    by (simp add: splitUInt16LE_def Let_def and_255_mod drop_bit_eq_div)
qed

lemma unpack_pack_consumer:
  assumes z: "buffer ! 5 = 0" "buffer ! 6 = 0" "buffer ! 7 = 0" "buffer ! 8 = 0" "buffer ! 9 = 0"
    and t: "buffer ! 4 = 0x02" and mk: "buffer ! 10 = 0x01" and l: "length buffer = 13"
  shows "unpackKeyMapWithId buffer =
           Inr \<lparr>layerId = uint (buffer ! 3), keyId = uint (buffer ! 2),
                keyMap = KeyMapConsumer \<lparr>consumerId = uint (buffer ! 11) + 256 * uint (buffer ! 12)\<rparr>\<rparr>"
    and "packKeyMap (KeyMapConsumer \<lparr>consumerId = uint (buffer ! 11) + 256 * uint (buffer ! 12)\<rparr>) =
           Inr (drop 4 (Array_from buffer))"
proof -
  show "unpackKeyMapWithId buffer =
           Inr \<lparr>layerId = uint (buffer ! 3), keyId = uint (buffer ! 2),
                keyMap = KeyMapConsumer \<lparr>consumerId = uint (buffer ! 11) + 256 * uint (buffer ! 12)\<rparr>\<rparr>"
    using t l by (simp add: unpackKeyMapWithId_def readUInt8_def KeyMapTypes_simps
        unpackConsumerAction_def readUInt16LE_def)
  have d: "drop 11 buffer = [buffer ! 11, buffer ! 12]"
    using l by (simp add: Cons_nth_drop_Suc [symmetric])
  have s: "splitUInt16LE (uint (buffer ! 11) + 256 * uint (buffer ! 12)) =
     [uint (buffer ! 11), uint (buffer ! 12)]"
    by (rule uint16_split) (simp_all add: uint_byte_bound)
  show "packKeyMap (KeyMapConsumer \<lparr>consumerId = uint (buffer ! 11) + 256 * uint (buffer ! 12)\<rparr>) =
           Inr (drop 4 (Array_from buffer))"
    using z t mk l by (simp add: packKeyMap_simps packConsumerAction_def s Array_from_def drop_map drop4 d)
qed

lemma unpack_pack_mouse:
  assumes z: "buffer ! 5 = 0" "buffer ! 6 = 0" "buffer ! 7 = 0" "buffer ! 8 = 0" "buffer ! 9 = 0"
    and t: "buffer ! 4 = 0x03" and mk: "buffer ! 10 = 0x04" and l: "length buffer = 16"
  shows "unpackKeyMapWithId buffer =
           Inr \<lparr>layerId = uint (buffer ! 3), keyId = uint (buffer ! 2),
                keyMap = KeyMapMouse \<lparr>modKey = uint (buffer ! 11), button = uint (buffer ! 12),
                  x = uint (buffer ! 13), y = uint (buffer ! 14), wheel = uint (buffer ! 15)\<rparr>\<rparr>"
    and "packKeyMap (KeyMapMouse \<lparr>modKey = uint (buffer ! 11), button = uint (buffer ! 12),
                  x = uint (buffer ! 13), y = uint (buffer ! 14), wheel = uint (buffer ! 15)\<rparr>) =
           Inr (drop 4 (Array_from buffer))"
proof -
  show "unpackKeyMapWithId buffer =
           Inr \<lparr>layerId = uint (buffer ! 3), keyId = uint (buffer ! 2),
                keyMap = KeyMapMouse \<lparr>modKey = uint (buffer ! 11), button = uint (buffer ! 12),
                  x = uint (buffer ! 13), y = uint (buffer ! 14), wheel = uint (buffer ! 15)\<rparr>\<rparr>"
    using t l by (simp add: unpackKeyMapWithId_def readUInt8_def KeyMapTypes_simps
        unpackMouseAction_def)
  have d: "drop 11 buffer = [buffer ! 11, buffer ! 12, buffer ! 13, buffer ! 14, buffer ! 15]"
    using l by (simp add: Cons_nth_drop_Suc [symmetric])
  show "packKeyMap (KeyMapMouse \<lparr>modKey = uint (buffer ! 11), button = uint (buffer ! 12),
                  x = uint (buffer ! 13), y = uint (buffer ! 14), wheel = uint (buffer ! 15)\<rparr>) =
           Inr (drop 4 (Array_from buffer))"
    using z t mk l by (simp add: packKeyMap_simps packMouseAction_def Array_from_def drop_map drop4 d)
qed

lemma unpack_then_pack:
  assumes "wellformed_report buffer"
  shows "\<exists>r. unpackKeyMapWithId buffer = Inr r \<and> layerId r = uint (buffer ! 3) \<and>
           keyId r = uint (buffer ! 2) \<and> packKeyMap (keyMap r) = Inr (drop 4 (Array_from buffer))"
proof -
  from assms consider
      (ks) "11 \<le> length buffer" "buffer ! 5 = 0" "buffer ! 6 = 0" "buffer ! 7 = 0" "buffer ! 8 = 0"
           "buffer ! 9 = 0" "buffer ! 4 = 0x01" "unat (buffer ! 10) \<le> 18"
           "length buffer = 11 + 2 * unat (buffer ! 10)"
    | (co) "buffer ! 5 = 0" "buffer ! 6 = 0" "buffer ! 7 = 0" "buffer ! 8 = 0"
           "buffer ! 9 = 0" "buffer ! 4 = 0x02" "buffer ! 10 = 0x01" "length buffer = 13"
    | (mo) "buffer ! 5 = 0" "buffer ! 6 = 0" "buffer ! 7 = 0" "buffer ! 8 = 0"
           "buffer ! 9 = 0" "buffer ! 4 = 0x03" "buffer ! 10 = 0x04" "length buffer = 16"
    unfolding wellformed_report_def by blast
  then show ?thesis
  proof cases
    case ks
    from unpack_pack_keys [OF ks] show ?thesis by simp
  next
    case co
    from unpack_pack_consumer [OF co] show ?thesis by simp
  next
    case mo
    from unpack_pack_mouse [OF mo] show ?thesis by simp
  qed
qed


lemma uint_of_valid_byte: "valid_byte v \<Longrightarrow> uint (word_of_int v :: 8 word) = v"
  by (simp add: valid_byte_def uint_word_of_int_eq take_bit_int_eq_self)

lemma nth_concat_pairs:
  "j < length ks \<Longrightarrow>
   concat (map (\<lambda>k. [f k, g k]) ks) ! (2 * j) = f (ks ! j) \<and>
   concat (map (\<lambda>k. [f k, g k]) ks) ! (2 * j + 1) = g (ks ! j)"
proof (induction ks arbitrary: j)
  case Nil
  then show ?case by simp
next
  case (Cons k ks)
  then show ?case by (cases j) simp_all
qed

lemma length_concat_pairs: "length (concat (map (\<lambda>k. [f k, g k]) ks)) = 2 * length ks"
  by (induction ks) simp_all

lemma pack_unpack_keys:
  assumes len: "length ks \<le> 18"
    and v: "list_all (\<lambda>k. valid_byte (modKey k) \<and> valid_byte (keyCode k)) ks"
  shows "\<exists>data. packKeyMap (KeyMapKeys ks) = Inr data \<and>
     unpackKeyMapWithId ([h0, h1, kb, lb] @ Buffer_from data) =
       Inr \<lparr>layerId = uint lb, keyId = uint kb, keyMap = KeyMapKeys ks\<rparr>"
proof -
  define body where "body = concat (map (\<lambda>k. [modKey k, keyCode k]) ks)"
  define pre :: Buffer where "pre = [h0, h1, kb, lb, 1, 0, 0, 0, 0, 0, word_of_int (int (length ks))]"
  define buffer where "buffer = pre @ map word_of_int body"
  have lp: "length pre = 11" by (simp add: pre_def)
  have lb: "length body = 2 * length ks" by (simp add: body_def length_concat_pairs)
  have lbuf: "length buffer = 11 + 2 * length ks" by (simp add: buffer_def lp lb)
  have p: "packKeyMap (KeyMapKeys ks) = Inr ([1, 0, 0, 0, 0, 0] @ int (length ks) # body)"
    using len by (simp add: packKeyMap_simps packKeyActrions_ok body_def)
  have b: "[h0, h1, kb, lb] @ Buffer_from ([1, 0, 0, 0, 0, 0] @ int (length ks) # body) = buffer"
    by (simp add: buffer_def pre_def Buffer_from_def)
  have n10: "buffer ! 10 = word_of_int (int (length ks))" by (simp add: buffer_def pre_def)
  have n4: "buffer ! 4 = 1" "buffer ! 3 = lb" "buffer ! 2 = kb" by (simp_all add: buffer_def pre_def)
  have un: "unat (buffer ! 10) = length ks"
    using len by (simp add: n10 unat_of_nat)
  then have "unat (buffer ! 10) < unat (0x80 :: 8 word)" using len by simp
  then have lt: "buffer ! 10 < 0x80" by (simp only: word_less_nat_alt)
  have u: "unpackKeyActions buffer = Inr (map (pairAt buffer) [0..<length ks])"
    using lbuf by (simp add: unpackKeyActions_positive [OF _ lt] un)
  have pa: "pairAt buffer j = ks ! j" if "j < length ks" for j
  proof -
    from that lb have i: "2 * j < length body" "2 * j + 1 < length body" by simp_all
    have "buffer ! (11 + 2 * j) = word_of_int (body ! (2 * j))"
      unfolding buffer_def using i lp by (simp add: nth_append)
    moreover have "buffer ! (11 + 2 * j + 1) = word_of_int (body ! (2 * j + 1))"
      unfolding buffer_def using i lp by (simp add: nth_append)
    moreover have "body ! (2 * j) = modKey (ks ! j)" "body ! (2 * j + 1) = keyCode (ks ! j)"
      using nth_concat_pairs [OF that, of modKey keyCode] by (simp_all add: body_def)
    moreover have "valid_byte (modKey (ks ! j))" "valid_byte (keyCode (ks ! j))"
      using v that by (simp_all add: list_all_length)
    ultimately show ?thesis by (simp add: pairAt_def uint_of_valid_byte)
  qed
  have "map (pairAt buffer) [0..<length ks] = map ((!) ks) [0..<length ks]"
    by (rule map_cong) (simp_all add: pa)
  then have m: "map (pairAt buffer) [0..<length ks] = ks" by (simp only: map_nth)
  have "unpackKeyMapWithId buffer = Inr \<lparr>layerId = uint lb, keyId = uint kb, keyMap = KeyMapKeys ks\<rparr>"
    using lbuf n4 u m by (simp add: unpackKeyMapWithId_def readUInt8_def KeyMapTypes_simps)
  with p b show ?thesis by simp
qed

lemma pack_unpack_consumer:
  assumes "0 \<le> consumerId c" "consumerId c \<le> 0xFFFF"
  shows "\<exists>data. packKeyMap (KeyMapConsumer c) = Inr data \<and>
     unpackKeyMapWithId ([h0, h1, kb, lb] @ Buffer_from data) =
       Inr \<lparr>layerId = uint lb, keyId = uint kb, keyMap = KeyMapConsumer c\<rparr>"
proof -
  define lo where "lo = consumerId c mod 256"
  define hi where "hi = consumerId c div 256"
  have hb: "0 \<le> hi" "hi < 256" using assms by (simp_all add: hi_def)
  then have hm: "hi mod 256 = hi" by simp
  have vb: "valid_byte lo" "valid_byte hi" using hb by (simp_all add: valid_byte_def lo_def)
  have s: "splitUInt16LE (consumerId c) = [lo, hi]"
    by (simp add: splitUInt16LE_def Let_def and_255_mod drop_bit_eq_div lo_def hm hi_def [symmetric])
  have r: "lo + 256 * hi = consumerId c" by (simp add: lo_def hi_def)
  have "unpackKeyMapWithId ([h0, h1, kb, lb] @ Buffer_from ([2, 0, 0, 0, 0, 0] @ [1, lo, hi])) =
     Inr \<lparr>layerId = uint lb, keyId = uint kb, keyMap = KeyMapConsumer \<lparr>consumerId = lo + 256 * hi\<rparr>\<rparr>"
    by (simp add: unpackKeyMapWithId_def readUInt8_def KeyMapTypes_simps Buffer_from_def
        unpackConsumerAction_def readUInt16LE_def uint_of_valid_byte [OF vb(1)]
        uint_of_valid_byte [OF vb(2)])
  then show ?thesis by (simp add: packKeyMap_simps packConsumerAction_def s r)
qed

lemma pack_unpack_mouse:
  assumes "valid_byte (modKey m)" "valid_byte (button m)" "valid_byte (x m)" "valid_byte (y m)"
    "valid_byte (wheel m)"
  shows "\<exists>data. packKeyMap (KeyMapMouse m) = Inr data \<and>
     unpackKeyMapWithId ([h0, h1, kb, lb] @ Buffer_from data) =
       Inr \<lparr>layerId = uint lb, keyId = uint kb, keyMap = KeyMapMouse m\<rparr>"
  using assms
  by (simp add: packKeyMap_simps packMouseAction_def unpackKeyMapWithId_def readUInt8_def
      KeyMapTypes_simps Buffer_from_def unpackMouseAction_def uint_of_valid_byte)

lemma pack_then_unpack:
  "valid_KeyMap m \<Longrightarrow>
   \<exists>data. packKeyMap m = Inr data \<and>
     unpackKeyMapWithId ([h0, h1, kb, lb] @ Buffer_from data) =
       Inr \<lparr>layerId = uint lb, keyId = uint kb, keyMap = m\<rparr>"
proof (cases m)
  case (KeyMapKeys ks)
  assume "valid_KeyMap m"
  with KeyMapKeys show ?thesis using pack_unpack_keys [of ks] by simp
next
  case (KeyMapConsumer c)
  assume "valid_KeyMap m"
  with KeyMapConsumer show ?thesis using pack_unpack_consumer [of c] by simp
next
  case (KeyMapMouse a)
  assume "valid_KeyMap m"
  with KeyMapMouse show ?thesis using pack_unpack_mouse [of a] by simp
next
  case (KeyMapUnknown t b)
  assume "valid_KeyMap m"
  with KeyMapUnknown show ?thesis by simp
qed

text \<open>
  Bytes that follow a well-formed report, such as the zero padding of a full-size report,
  are not read by \<open>unpackKeyMapWithId\<close>; \<open>packKeyMap\<close> then returns the report from offset
  4 on without them.
\<close>

lemma pairAt_append: "11 + 2 * j + 1 < length b \<Longrightarrow> pairAt (b @ pad) j = pairAt b j"
  by (simp add: pairAt_def nth_append)

lemma unpack_ignores_padding:
  assumes "wellformed_report b"
  shows "unpackKeyMapWithId (b @ pad) = unpackKeyMapWithId b"
proof -
  from assms consider
      (ks) "11 \<le> length b" "b ! 4 = 0x01" "unat (b ! 10) \<le> 18"
           "length b = 11 + 2 * unat (b ! 10)"
    | (co) "b ! 4 = 0x02" "length b = 13"
    | (mo) "b ! 4 = 0x03" "length b = 16"
    unfolding wellformed_report_def by blast
  then show ?thesis
  proof cases
    case ks
    from ks(3) have "unat (b ! 10) < unat (0x80 :: 8 word)" by simp
    then have lt: "b ! 10 < 0x80" by (simp only: word_less_nat_alt)
    from ks(1) have n10: "(b @ pad) ! 10 = b ! 10" by (simp add: nth_append)
    have "map (pairAt (b @ pad)) [0..<unat (b ! 10)] = map (pairAt b) [0..<unat (b ! 10)]"
      using ks(4) by (intro map_cong) (simp_all add: pairAt_append)
    then have "unpackKeyActions (b @ pad) = unpackKeyActions b"
      using ks(1,4) lt
      by (simp add: unpackKeyActions_positive [of "b @ pad"] unpackKeyActions_positive [of b] n10)
    with ks(1,2) show ?thesis
      by (simp add: unpackKeyMapWithId_def readUInt8_def nth_append KeyMapTypes_simps)
  next
    case co
    then show ?thesis
      by (simp add: unpackKeyMapWithId_def readUInt8_def nth_append KeyMapTypes_simps
          unpackConsumerAction_def readUInt16LE_def)
  next
    case mo
    then show ?thesis
      by (simp add: unpackKeyMapWithId_def readUInt8_def nth_append KeyMapTypes_simps
          unpackMouseAction_def)
  qed
qed

text \<open>
  Claim C1, as amended.  Take a report that is well-formed for its type \<open>0x01\<close>, \<open>0x02\<close> or
  \<open>0x03\<close> and let any bytes follow it, such as the zero padding of a full-size report.
  The buffer unpacks to a key map that \<open>packKeyMap\<close> turns back into the bytes of the
  buffer from offset 4 up to the end of the payload; the bytes after the payload are not
  reproduced.  So the result is the whole of the buffer from offset 4 on exactly when
  nothing follows the payload.  In the other direction, every valid key map \<open>m\<close> of a
  known type packs to bytes which, with any four header bytes in front, unpack to \<open>m\<close>
  again, together with the key id and the layer id of the header.
\<close>

theorem pack_unpack_roundtrip:
  "(wellformed_report b \<longrightarrow>
      (\<exists>r. unpackKeyMapWithId (b @ pad) = Inr r \<and> layerId r = uint (b ! 3) \<and>
           keyId r = uint (b ! 2) \<and>
           packKeyMap (keyMap r) = Inr (drop 4 (Array_from b)) \<and>
           drop 4 (Array_from (b @ pad)) = drop 4 (Array_from b) @ Array_from pad)) \<and>
   (wellformed_report b \<longrightarrow>
      (\<exists>r. unpackKeyMapWithId b = Inr r \<and>
           packKeyMap (keyMap r) = Inr (drop 4 (Array_from b)))) \<and>
   (valid_KeyMap m \<longrightarrow>
      (\<exists>data. packKeyMap m = Inr data \<and>
         unpackKeyMapWithId ([h0, h1, kb, lb] @ Buffer_from data) =
           Inr \<lparr>layerId = uint lb, keyId = uint kb, keyMap = m\<rparr>))"
proof (intro conjI impI)
  assume w: "wellformed_report b"
  from unpack_then_pack [OF w] obtain r where r: "unpackKeyMapWithId b = Inr r"
      "layerId r = uint (b ! 3)" "keyId r = uint (b ! 2)"
      "packKeyMap (keyMap r) = Inr (drop 4 (Array_from b))"
    by blast
  from w have "4 \<le> length b" by (simp add: wellformed_report_def)
  then have d: "drop 4 (Array_from (b @ pad)) = drop 4 (Array_from b) @ Array_from pad"
    by (simp add: Array_from_def)
  have "unpackKeyMapWithId (b @ pad) = Inr r"
    by (simp add: unpack_ignores_padding [OF w] r(1))
  with r d show "\<exists>r. unpackKeyMapWithId (b @ pad) = Inr r \<and> layerId r = uint (b ! 3) \<and>
           keyId r = uint (b ! 2) \<and>
           packKeyMap (keyMap r) = Inr (drop 4 (Array_from b)) \<and>
           drop 4 (Array_from (b @ pad)) = drop 4 (Array_from b) @ Array_from pad"
    by blast
next
  assume w: "wellformed_report b"
  from unpack_then_pack [OF w]
  show "\<exists>r. unpackKeyMapWithId b = Inr r \<and> packKeyMap (keyMap r) = Inr (drop 4 (Array_from b))"
    by blast
next
  assume "valid_KeyMap m"
  then show "\<exists>data. packKeyMap m = Inr data \<and>
         unpackKeyMapWithId ([h0, h1, kb, lb] @ Buffer_from data) =
           Inr \<lparr>layerId = uint lb, keyId = uint kb, keyMap = m\<rparr>"
    by (rule pack_then_unpack)
qed

theorem pack_unpack_roundtrip_witness:
  "wellformed_report [0x03, 0xfa, 0x0f, 0x01, 0x01, 0, 0, 0, 0, 0, 0x02, 0x00, 0x12, 0x01, 0x23] \<and>
   (\<exists>r. unpackKeyMapWithId
          ([0x03, 0xfa, 0x0f, 0x01, 0x01, 0, 0, 0, 0, 0, 0x02, 0x00, 0x12, 0x01, 0x23] @ replicate 50 0)
          = Inr r \<and> layerId r = 0x01 \<and> keyId r = 0x0f \<and>
        packKeyMap (keyMap r) = Inr [0x01, 0, 0, 0, 0, 0, 0x02, 0x00, 0x12, 0x01, 0x23]) \<and>
   (\<exists>r. unpackKeyMapWithId [0x03, 0xfa, 0x0f, 0x01, 0x01, 0, 0, 0, 0, 0, 0x02, 0x00, 0x12, 0x01, 0x23]
          = Inr r \<and>
        packKeyMap (keyMap r) = Inr [0x01, 0, 0, 0, 0, 0, 0x02, 0x00, 0x12, 0x01, 0x23]) \<and>
   valid_KeyMap (KeyMapMouse \<lparr>modKey = 0, button = 0, x = 0, y = 0, wheel = 0xFF\<rparr>) \<and>
   (\<exists>data. packKeyMap (KeyMapMouse \<lparr>modKey = 0, button = 0, x = 0, y = 0, wheel = 0xFF\<rparr>)
            = Inr data \<and>
      unpackKeyMapWithId ([0x03, 0xfa, 0x05, 0x02] @ Buffer_from data) =
        Inr \<lparr>layerId = 0x02, keyId = 0x05,
             keyMap = KeyMapMouse \<lparr>modKey = 0, button = 0, x = 0, y = 0, wheel = 0xFF\<rparr>\<rparr>)"
proof -
  have w: "wellformed_report [0x03, 0xfa, 0x0f, 0x01, 0x01, 0, 0, 0, 0, 0, 0x02, 0x00, 0x12, 0x01, 0x23]"
    by (simp add: wellformed_report_def)
  have v: "valid_KeyMap (KeyMapMouse \<lparr>modKey = 0, button = 0, x = 0, y = 0, wheel = 0xFF\<rparr>)"
    by (simp add: valid_byte_def)
  from w v pack_unpack_roundtrip
    [of "[0x03, 0xfa, 0x0f, 0x01, 0x01, 0, 0, 0, 0, 0, 0x02, 0x00, 0x12, 0x01, 0x23]"
        "replicate 50 0"
        "KeyMapMouse \<lparr>modKey = 0, button = 0, x = 0, y = 0, wheel = 0xFF\<rparr>"
        "0x03" "0xfa" "0x05" "0x02"]
  show ?thesis by (simp add: Array_from_def)
qed

text \<open>
  A report of 65 bytes that holds one key action and zero padding: its key map packs to
  nine bytes, not to the 61 bytes of the report from offset 4 on.
\<close>

theorem pack_unpack_padded_counterexample:
  "length ([0x03, 0xfa, 0x0f, 0x01, 0x01, 0, 0, 0, 0, 0, 0x01, 0x00, 0x12] @ replicate 52 (0 :: 8 word))
     = REQUEST_SIZE \<and>
   unpackKeyMapWithId ([0x03, 0xfa, 0x0f, 0x01, 0x01, 0, 0, 0, 0, 0, 0x01, 0x00, 0x12] @ replicate 52 0) =
     Inr \<lparr>layerId = 0x01, keyId = 0x0f, keyMap = KeyMapKeys [\<lparr>modKey = 0x00, keyCode = 0x12\<rparr>]\<rparr> \<and>
   packKeyMap (KeyMapKeys [\<lparr>modKey = 0x00, keyCode = 0x12\<rparr>]) =
     Inr [0x01, 0, 0, 0, 0, 0, 0x01, 0x00, 0x12] \<and>
   packKeyMap (KeyMapKeys [\<lparr>modKey = 0x00, keyCode = 0x12\<rparr>]) \<noteq>
     Inr (drop 4 (Array_from
       ([0x03, 0xfa, 0x0f, 0x01, 0x01, 0, 0, 0, 0, 0, 0x01, 0x00, 0x12] @ replicate 52 0)))"
proof -
  let ?b = "[0x03, 0xfa, 0x0f, 0x01, 0x01, 0, 0, 0, 0, 0, 0x01, 0x00, 0x12] :: Buffer"
  have w: "wellformed_report ?b" by (simp add: wellformed_report_def)
  have u: "unpackKeyMapWithId ?b =
     Inr \<lparr>layerId = 0x01, keyId = 0x0f, keyMap = KeyMapKeys [\<lparr>modKey = 0x00, keyCode = 0x12\<rparr>]\<rparr>"
    by (simp add: unpackKeyMapWithId_def readUInt8_def readInt8_def KeyMapTypes_simps
        unpackKeyActions_def unpackKeyActions_loop.simps)
  have p: "packKeyMap (KeyMapKeys [\<lparr>modKey = 0x00, keyCode = 0x12\<rparr>]) =
     Inr [0x01, 0, 0, 0, 0, 0, 0x01, 0x00, 0x12]"
    by (simp add: packKeyMap_simps packKeyActrions_ok)
  have "length (drop 4 (Array_from (?b @ replicate 52 0))) = 61"
    by (simp add: Array_from_def)
  then have n: "drop 4 (Array_from (?b @ replicate 52 0)) \<noteq> [0x01, 0, 0, 0, 0, 0, 0x01, 0x00, 0x12]"
  proof -
    assume l: "length (drop 4 (Array_from (?b @ replicate 52 0))) = 61"
    show ?thesis
    proof
      assume "drop 4 (Array_from (?b @ replicate 52 0)) = [0x01, 0, 0, 0, 0, 0, 0x01, 0x00, 0x12]"
      then have "length (drop 4 (Array_from (?b @ replicate 52 0))) =
                 length [0x01, 0, 0, 0, 0, 0, 0x01, 0x00, 0x12 :: int]"
        by (rule arg_cong)
      with l show False by simp
    qed
  qed
  have up: "unpackKeyMapWithId (?b @ replicate 52 0) =
     Inr \<lparr>layerId = 0x01, keyId = 0x0f, keyMap = KeyMapKeys [\<lparr>modKey = 0x00, keyCode = 0x12\<rparr>]\<rparr>"
    using unpack_ignores_padding [OF w, of "replicate 52 0"] u by (simp only:)
  show ?thesis
    using up p n by (simp add: REQUEST_SIZE_def)
qed


section \<open>Reading the key map table\<close>

lemma unpack_fields:
  "unpackKeyMapWithId r = Inr kw \<Longrightarrow>
     4 < length r \<and> keyId kw = uint (r ! 2) \<and> layerId kw = uint (r ! 3)"
  by (auto simp: unpackKeyMapWithId_def readUInt8_def split: if_splits sum.splits)

lemma response_ok_nonempty: "response_ok lid r \<Longrightarrow> r \<noteq> []"
  by (auto simp: response_ok_def dest: unpack_fields split: sum.splits)

lemma recvResponse_Cons:
  "incoming hid = r # rest \<Longrightarrow> r \<noteq> [] \<Longrightarrow>
   recvResponse hid = (Inr r, hid\<lparr>reads := reads hid + 1, incoming := rest\<rparr>)"
  by (simp add: recvResponse_def hid_read_def)

lemma loop_ok:
  "incoming hid = rs @ rest \<Longrightarrow> length rs = nat (cnt - i) \<Longrightarrow> list_all (response_ok lid) rs \<Longrightarrow>
   readKeypadKeyMaps_loop lid cnt i result hid =
     (Inr (fold store rs result), hid\<lparr>reads := reads hid + length rs, incoming := rest\<rparr>)"
proof (induction rs arbitrary: i result hid)
  case Nil
  then show ?case by (subst readKeypadKeyMaps_loop.simps) simp
next
  case (Cons r rs)
  from Cons.prems have ok: "response_ok lid r" by simp
  then obtain kw where kw: "unpackKeyMapWithId r = Inr kw" "layerId kw = lid"
    by (auto simp: response_ok_def split: sum.splits)
  let ?hid' = "hid\<lparr>reads := reads hid + 1, incoming := rs @ rest\<rparr>"
  have rv: "recvResponse hid = (Inr r, ?hid')"
    using Cons.prems(1) response_ok_nonempty [OF ok] by (simp add: recvResponse_Cons)
  have st: "store r result = array_set result (keyId kw - 1) (keyMap kw)"
    by (simp add: store_def kw)
  have "readKeypadKeyMaps_loop lid cnt (i + 1) (store r result) ?hid' =
     (Inr (fold store rs (store r result)), ?hid'\<lparr>reads := reads ?hid' + length rs, incoming := rest\<rparr>)"
    using Cons.prems by (intro Cons.IH) auto
  moreover from Cons.prems(2) have "i < cnt" by simp
  ultimately show ?case
    by (subst readKeypadKeyMaps_loop.simps) (simp add: rv kw st)
qed





lemma sendRequest_request_for:
  "sendRequest hid (packReadKeypadKeyMaps \<lparr>keys = keys info, knobs = knobs info, req_layerId = l\<rparr>) =
     hid\<lparr>written := written hid @ [request_for info l]\<rparr>"
  by (simp add: sendRequest_def hid_write_def packReadKeypadKeyMaps_def sendRequest_loop_eq
      REQUEST_SIZE_def request_for_def)

lemma readKeypadKeyMaps_unfold:
  "readKeypadKeyMaps hid \<lparr>keys = keys info, knobs = knobs info, req_layerId = l\<rparr> =
     readKeypadKeyMaps_loop l (getKeyCount info) 0 []
       (hid\<lparr>written := written hid @ [request_for info l]\<rparr>)"
  by (simp add: readKeypadKeyMaps_def Let_def sendRequest_request_for getKeyCount_def)

lemma maps_ok:
  assumes "incoming hid = rs @ rest" "length rs = nat (getKeyCount info)"
    "list_all (response_ok l) rs"
  shows "readKeypadKeyMaps hid \<lparr>keys = keys info, knobs = knobs info, req_layerId = l\<rparr> =
     (Inr (fold store rs []),
      hid\<lparr>written := written hid @ [request_for info l], reads := reads hid + length rs,
          incoming := rest\<rparr>)"
  unfolding readKeypadKeyMaps_unfold
  using assms by (subst loop_ok [where rs = rs and rest = rest]) simp_all








lemmas eval_simps = readKeypadKeyMapTable_def readKeypadKeyMapTable_loop.simps
  readKeypadKeyMaps_def Let_def sendRequest_def hid_write_def sendRequest_loop_eq REQUEST_SIZE_def
  packReadKeypadKeyMaps_def readKeypadKeyMaps_loop.simps getKeyCount_def recvResponse_def hid_read_def
  unpackKeyMapWithId_def readUInt8_def readInt8_def KeyMapTypes_simps unpackKeyActions_def
  unpackKeyActions_loop.simps array_set_def request_for_def response_ok_def response_mismatch_def



section \<open>The order of the responses of one layer\<close>

lemma slot_array_set:
  "0 \<le> i \<Longrightarrow> slot (array_set xs i v) j = (if j = nat i then Some v else slot xs j)"
  by (auto simp: slot_def array_set_def nth_append nth_Cons')

lemma length_array_set:
  "0 \<le> i \<Longrightarrow> length (array_set xs i v) = max (length xs) (nat i + 1)"
  by (auto simp: array_set_def)

lemma slot_ext:
  assumes "length xs = length ys" and "\<And>j. slot xs j = slot ys j"
  shows "xs = ys"
proof (rule nth_equalityI)
  show "length xs = length ys" by (rule assms(1))
  fix i assume "i < length xs"
  with assms(2) [of i] assms(1) show "xs ! i = ys ! i" by (simp add: slot_def)
qed

lemma array_set_commute:
  assumes "0 \<le> i" "0 \<le> j" "i \<noteq> j"
  shows "array_set (array_set xs i v) j w = array_set (array_set xs j w) i v"
proof (rule slot_ext)
  show "length (array_set (array_set xs i v) j w) = length (array_set (array_set xs j w) i v)"
    using assms by (simp add: length_array_set max.commute max.left_commute)
  fix k
  show "slot (array_set (array_set xs i v) j w) k = slot (array_set (array_set xs j w) i v) k"
    using assms by (auto simp: slot_array_set)
qed

lemma storable_iff:
  "storable r \<longleftrightarrow> (\<exists>kw. unpackKeyMapWithId r = Inr kw) \<and> 1 \<le> uint (r ! 2)"
  by (auto simp: storable_def split: sum.splits)

lemma store_storable:
  "unpackKeyMapWithId r = Inr kw \<Longrightarrow>
   store r acc = array_set acc (uint (r ! 2) - 1) (keyMap kw)"
  by (simp add: store_def unpack_fields)

lemma store_commute:
  assumes "storable a" "storable b" "uint (a ! 2) \<noteq> uint (b ! 2)"
  shows "store a (store b acc) = store b (store a acc)"
proof -
  from assms obtain ka kb where k: "unpackKeyMapWithId a = Inr ka" "unpackKeyMapWithId b = Inr kb"
    by (auto simp: storable_iff)
  from assms have "0 \<le> uint (a ! 2) - 1" "0 \<le> uint (b ! 2) - 1" "uint (b ! 2) - 1 \<noteq> uint (a ! 2) - 1"
    by (simp_all add: storable_iff)
  then show ?thesis
    by (simp add: store_storable [OF k(1)] store_storable [OF k(2)] array_set_commute)
qed

lemma fold_store_perm:
  assumes "mset rs' = mset rs" and "list_all storable rs"
    and "distinct (map (\<lambda>r. uint (r ! 2)) rs)"
  shows "fold store rs' acc = fold store rs acc"
proof -
  have "fold store rs = fold store rs'"
  proof (rule fold_multiset_equiv)
    show "mset rs = mset rs'" using assms(1) by simp
    fix a b assume ab: "a \<in> set rs" "b \<in> set rs"
    show "store a \<circ> store b = store b \<circ> store a"
    proof (cases "a = b")
      case True
      then show ?thesis by simp
    next
      case False
      from assms(3) have "inj_on (\<lambda>r. uint (r ! 2)) (set rs)" by (simp add: distinct_map)
      with ab False have "uint (a ! 2) \<noteq> uint (b ! 2)" by (auto dest: inj_onD)
      moreover from ab assms(2) have "storable a" "storable b" by (simp_all add: list_all_iff)
      ultimately show ?thesis by (auto simp: fun_eq_iff store_commute)
    qed
  qed
  then show ?thesis by simp
qed

lemma slot_fold_store_other:
  "list_all storable rs \<Longrightarrow> \<forall>r\<in>set rs. nat (uint (r ! 2) - 1) \<noteq> j \<Longrightarrow>
   slot (fold store rs acc) j = slot acc j"
proof (induction rs arbitrary: acc)
  case Nil
  then show ?case by simp
next
  case (Cons a rs)
  from Cons.prems obtain ka where ka: "unpackKeyMapWithId a = Inr ka" and k1: "1 \<le> uint (a ! 2)"
    by (auto simp: storable_iff)
  from Cons.prems have "slot (fold store rs (store a acc)) j = slot (store a acc) j"
    by (intro Cons.IH) simp_all
  also have "\<dots> = slot acc j"
    using Cons.prems(2) k1 by (simp add: store_storable [OF ka] slot_array_set)
  finally show ?case by simp
qed

lemma slot_fold_store_mem:
  "list_all storable rs \<Longrightarrow> distinct (map (\<lambda>r. uint (r ! 2)) rs) \<Longrightarrow> r \<in> set rs \<Longrightarrow>
   unpackKeyMapWithId r = Inr kw \<Longrightarrow>
   slot (fold store rs acc) (nat (uint (r ! 2) - 1)) = Some (keyMap kw)"
proof (induction rs arbitrary: acc)
  case Nil
  then show ?case by simp
next
  case (Cons a rs)
  show ?case
  proof (cases "r = a")
    case True
    from Cons.prems(1) have sa: "list_all storable rs" by simp
    from Cons.prems(1) have k1: "1 \<le> uint (a ! 2)" by (simp add: storable_iff)
    have ne: "\<forall>q\<in>set rs. nat (uint (q ! 2) - 1) \<noteq> nat (uint (a ! 2) - 1)"
    proof
      fix q assume q: "q \<in> set rs"
      from Cons.prems(2) have "uint (a ! 2) \<notin> (\<lambda>r. uint (r ! 2)) ` set rs" by simp
      with q have "uint (q ! 2) \<noteq> uint (a ! 2)" by (metis imageI)
      moreover from q sa have "1 \<le> uint (q ! 2)" by (simp add: list_all_iff storable_iff)
      ultimately show "nat (uint (q ! 2) - 1) \<noteq> nat (uint (a ! 2) - 1)" using k1 by simp
    qed
    have "slot (fold store rs (store a acc)) (nat (uint (a ! 2) - 1)) =
          slot (store a acc) (nat (uint (a ! 2) - 1))"
      by (rule slot_fold_store_other [OF sa ne])
    also have "\<dots> = Some (keyMap kw)"
      using Cons.prems(4) True k1 by (simp add: store_storable slot_array_set)
    finally show ?thesis using True by simp
  next
    case False
    with Cons.prems have "slot (fold store rs (store a acc)) (nat (uint (r ! 2) - 1)) = Some (keyMap kw)"
      by (intro Cons.IH) simp_all
    then show ?thesis by simp
  qed
qed

lemma length_fold_store_le:
  "list_all storable rs \<Longrightarrow> \<forall>r\<in>set rs. uint (r ! 2) \<le> int n \<Longrightarrow> length acc \<le> n \<Longrightarrow>
   length (fold store rs acc) \<le> n"
proof (induction rs arbitrary: acc)
  case Nil
  then show ?case by simp
next
  case (Cons a rs)
  from Cons.prems obtain ka where ka: "unpackKeyMapWithId a = Inr ka" and k1: "1 \<le> uint (a ! 2)"
    by (auto simp: storable_iff)
  from Cons.prems(2) k1 have "nat (uint (a ! 2) - 1) + 1 \<le> n" by simp linarith
  with Cons.prems(3) k1 have "length (store a acc) \<le> n"
    by (simp add: store_storable [OF ka] length_array_set)
  with Cons.prems have "length (fold store rs (store a acc)) \<le> n"
    by (intro Cons.IH) simp_all
  then show ?case by simp
qed


lemma slot_Some_nth: "slot xs j = Some v \<Longrightarrow> j < length xs \<and> xs ! j = Some v"
  by (simp add: slot_def split: if_splits)

lemma response_ok_unpack: "response_ok l r \<Longrightarrow> \<exists>kw. unpackKeyMapWithId r = Inr kw"
  by (auto simp: response_ok_def split: sum.splits)

text \<open>
  Claim C9.  \<open>readKeypadKeyMaps\<close> puts every decoded key map at the index \<open>keyId - 1\<close> of
  the list it returns, with the key id that the response itself carries at offset 2.  So
  when the responses of a layer carry the layer id requested and their key ids are
  \<open>1, \<dots>, count\<close> in some order, the list returned has \<open>count\<close> entries, holds the key map
  of every response at its key id minus one, and is the same for every other order of
  arrival of the same responses.
\<close>

theorem readKeypadKeyMaps_by_keyId:
  "list_all (response_ok l) rs \<and>
   mset (map (\<lambda>r. uint (r ! 2)) rs) = mset [1..getKeyCount info] \<and>
   mset rs' = mset rs \<and> incoming hid = rs @ rest \<and> incoming hid' = rs' @ rest' \<longrightarrow>
   fst (readKeypadKeyMaps hid \<lparr>keys = keys info, knobs = knobs info, req_layerId = l\<rparr>) =
   fst (readKeypadKeyMaps hid' \<lparr>keys = keys info, knobs = knobs info, req_layerId = l\<rparr>) \<and>
   (\<exists>list. fst (readKeypadKeyMaps hid \<lparr>keys = keys info, knobs = knobs info, req_layerId = l\<rparr>) =
             Inr list \<and>
      length list = nat (getKeyCount info) \<and>
      (\<forall>r\<in>set rs. \<forall>kw. unpackKeyMapWithId r = Inr kw \<longrightarrow>
         list ! nat (keyId kw - 1) = Some (keyMap kw)))"
proof (intro impI)
  let ?key = "\<lambda>r :: Buffer. uint (r ! 2)"
  let ?c = "getKeyCount info"
  let ?param = "\<lparr>keys = keys info, knobs = knobs info, req_layerId = l\<rparr>"
  assume h: "list_all (response_ok l) rs \<and>
   mset (map ?key rs) = mset [1..?c] \<and>
   mset rs' = mset rs \<and> incoming hid = rs @ rest \<and> incoming hid' = rs' @ rest'"
  then have ok: "list_all (response_ok l) rs" and ks: "mset (map ?key rs) = mset [1..?c]"
    and pm: "mset rs' = mset rs" and inc: "incoming hid = rs @ rest"
    and inc': "incoming hid' = rs' @ rest'"
    by simp_all
  from ks have "length (map ?key rs) = length [1..?c]" by (rule mset_eq_length)
  then have len: "length rs = nat ?c" by simp
  from ks have dist: "distinct (map ?key rs)"
    using mset_eq_imp_distinct_iff [OF ks] by simp
  from ks have "set (map ?key rs) = set [1..?c]" by (rule mset_eq_setD)
  then have kset: "?key ` set rs = {1..?c}" by simp
  have stor: "list_all storable rs"
    unfolding list_all_iff
  proof
    fix r assume r: "r \<in> set rs"
    with ok have "\<exists>kw. unpackKeyMapWithId r = Inr kw"
      by (auto simp: list_all_iff dest: response_ok_unpack)
    moreover from r kset have "1 \<le> ?key r" by auto
    ultimately show "storable r" by (simp add: storable_iff)
  qed
  from pm have set': "set rs' = set rs" by (rule mset_eq_setD)
  from pm have len': "length rs' = nat ?c" using len mset_eq_length by fastforce
  from ok set' have ok': "list_all (response_ok l) rs'" by (simp add: list_all_iff)
  have r1: "readKeypadKeyMaps hid ?param =
     (Inr (fold store rs []),
      hid\<lparr>written := written hid @ [request_for info l], reads := reads hid + length rs,
          incoming := rest\<rparr>)"
    by (rule maps_ok [OF inc len ok])
  have r2: "readKeypadKeyMaps hid' ?param =
     (Inr (fold store rs' []),
      hid'\<lparr>written := written hid' @ [request_for info l], reads := reads hid' + length rs',
          incoming := rest'\<rparr>)"
    by (rule maps_ok [OF inc' len' ok'])
  have same: "fold store rs' [] = fold store rs []"
    by (rule fold_store_perm [OF pm stor dist])
  have el: "slot (fold store rs []) (nat (keyId kw - 1)) = Some (keyMap kw)"
    if "r \<in> set rs" "unpackKeyMapWithId r = Inr kw" for r kw
    using slot_fold_store_mem [OF stor dist that, of "[]"] unpack_fields [OF that(2)] by simp
  have up: "length (fold store rs []) \<le> nat ?c"
  proof (rule length_fold_store_le [OF stor])
    show "\<forall>r\<in>set rs. ?key r \<le> int (nat ?c)"
    proof
      fix r assume "r \<in> set rs"
      with kset have "?key r \<in> {1..?c}" by blast
      then show "?key r \<le> int (nat ?c)" by simp
    qed
    show "length ([] :: KeyMapList) \<le> nat ?c" by simp
  qed
  have lo: "nat ?c \<le> length (fold store rs [])"
  proof (cases "1 \<le> ?c")
    case False
    then show ?thesis by simp
  next
    case True
    then have "?c \<in> ?key ` set rs" using kset by simp
    then obtain r where r: "r \<in> set rs" "?key r = ?c" by auto
    from r(1) stor obtain kw where kw: "unpackKeyMapWithId r = Inr kw"
      by (auto simp: list_all_iff storable_iff)
    from el [OF r(1) kw] unpack_fields [OF kw] r(2)
    have "slot (fold store rs []) (nat (?c - 1)) = Some (keyMap kw)" by simp
    then have "nat (?c - 1) < length (fold store rs [])" by (simp add: slot_Some_nth)
    with True show ?thesis by simp
  qed
  have "fst (readKeypadKeyMaps hid ?param) = Inr (fold store rs []) \<and>
      length (fold store rs []) = nat ?c \<and>
      (\<forall>r\<in>set rs. \<forall>kw. unpackKeyMapWithId r = Inr kw \<longrightarrow>
         fold store rs [] ! nat (keyId kw - 1) = Some (keyMap kw))"
    using r1 up lo el by (auto dest: slot_Some_nth)
  then have "\<exists>list. fst (readKeypadKeyMaps hid ?param) = Inr list \<and>
      length list = nat ?c \<and>
      (\<forall>r\<in>set rs. \<forall>kw. unpackKeyMapWithId r = Inr kw \<longrightarrow>
         list ! nat (keyId kw - 1) = Some (keyMap kw))"
    by (rule exI)
  moreover have "fst (readKeypadKeyMaps hid ?param) = fst (readKeypadKeyMaps hid' ?param)"
    by (simp add: r1 r2 same)
  ultimately show "fst (readKeypadKeyMaps hid ?param) = fst (readKeypadKeyMaps hid' ?param) \<and>
   (\<exists>list. fst (readKeypadKeyMaps hid ?param) = Inr list \<and>
      length list = nat ?c \<and>
      (\<forall>r\<in>set rs. \<forall>kw. unpackKeyMapWithId r = Inr kw \<longrightarrow>
         list ! nat (keyId kw - 1) = Some (keyMap kw)))"
    by (rule conjI [rotated])
qed

theorem readKeypadKeyMaps_by_keyId_witness:
  "list_all (response_ok 2)
     [[0x03, 0xfa, 0x03, 0x02, 0x01, 0, 0, 0, 0, 0, 0x01, 0x14, 0x24],
      [0x03, 0xfa, 0x02, 0x02, 0x01, 0, 0, 0, 0, 0, 0x01, 0x15, 0x25],
      [0x03, 0xfa, 0x01, 0x02, 0x01, 0, 0, 0, 0, 0, 0x01, 0x16, 0x26]] \<and>
   fst (readKeypadKeyMaps
     \<lparr>written = [], reads = 0,
      incoming = [[0x03, 0xfa, 0x03, 0x02, 0x01, 0, 0, 0, 0, 0, 0x01, 0x14, 0x24],
                  [0x03, 0xfa, 0x02, 0x02, 0x01, 0, 0, 0, 0, 0, 0x01, 0x15, 0x25],
                  [0x03, 0xfa, 0x01, 0x02, 0x01, 0, 0, 0, 0, 0, 0x01, 0x16, 0x26]]\<rparr>
     \<lparr>keys = 3, knobs = 0, req_layerId = 2\<rparr>) =
   Inr [Some (KeyMapKeys [\<lparr>modKey = 0x16, keyCode = 0x26\<rparr>]),
        Some (KeyMapKeys [\<lparr>modKey = 0x15, keyCode = 0x25\<rparr>]),
        Some (KeyMapKeys [\<lparr>modKey = 0x14, keyCode = 0x24\<rparr>])] \<and>
   fst (readKeypadKeyMaps
     \<lparr>written = [], reads = 0,
      incoming = [[0x03, 0xfa, 0x01, 0x02, 0x01, 0, 0, 0, 0, 0, 0x01, 0x16, 0x26],
                  [0x03, 0xfa, 0x02, 0x02, 0x01, 0, 0, 0, 0, 0, 0x01, 0x15, 0x25],
                  [0x03, 0xfa, 0x03, 0x02, 0x01, 0, 0, 0, 0, 0, 0x01, 0x14, 0x24]]\<rparr>
     \<lparr>keys = 3, knobs = 0, req_layerId = 2\<rparr>) =
   Inr [Some (KeyMapKeys [\<lparr>modKey = 0x16, keyCode = 0x26\<rparr>]),
        Some (KeyMapKeys [\<lparr>modKey = 0x15, keyCode = 0x25\<rparr>]),
        Some (KeyMapKeys [\<lparr>modKey = 0x14, keyCode = 0x24\<rparr>])]"
proof -
  let ?k1 = "[0x03, 0xfa, 0x01, 0x02, 0x01, 0, 0, 0, 0, 0, 0x01, 0x16, 0x26] :: Buffer"
  let ?k2 = "[0x03, 0xfa, 0x02, 0x02, 0x01, 0, 0, 0, 0, 0, 0x01, 0x15, 0x25] :: Buffer"
  let ?k3 = "[0x03, 0xfa, 0x03, 0x02, 0x01, 0, 0, 0, 0, 0, 0x01, 0x14, 0x24] :: Buffer"
  let ?info = "\<lparr>keys = 3, knobs = 0\<rparr>"
  let ?hidA = "\<lparr>written = [], reads = 0, incoming = [?k3, ?k2, ?k1]\<rparr>"
  let ?hidB = "\<lparr>written = [], reads = 0, incoming = [?k1, ?k2, ?k3]\<rparr>"
  have ok: "list_all (response_ok 2) [?k3, ?k2, ?k1]" by (simp add: eval_simps)
  have ks: "mset (map (\<lambda>r. uint (r ! 2)) [?k3, ?k2, ?k1]) = mset [1..getKeyCount ?info]"
    by (simp add: getKeyCount_def upto_rec1)
  have pm: "mset [?k1, ?k2, ?k3] = mset [?k3, ?k2, ?k1]" by simp
  have ev: "fst (readKeypadKeyMaps ?hidB \<lparr>keys = 3, knobs = 0, req_layerId = 2\<rparr>) =
     Inr [Some (KeyMapKeys [\<lparr>modKey = 0x16, keyCode = 0x26\<rparr>]),
        Some (KeyMapKeys [\<lparr>modKey = 0x15, keyCode = 0x25\<rparr>]),
        Some (KeyMapKeys [\<lparr>modKey = 0x14, keyCode = 0x24\<rparr>])]"
    by (simp add: eval_simps)
  from readKeypadKeyMaps_by_keyId
    [of 2 "[?k3, ?k2, ?k1]" ?info "[?k1, ?k2, ?k3]" ?hidA "[]" ?hidB "[]"] ok ks pm ev
  show ?thesis by simp
qed


end
